theory Spec2Isabelle
  imports Complex_Main "HOL-Library.Sublist" "HOL-Library.Multiset"
    "HOL-Library.Char_ord" "HOL-Library.List_Lexorder"
begin

section \<open>Blog API: the in-memory content store of \<open>main.py\<close>\<close>

text \<open>
  The module keeps five globals (\<open>posts_db\<close>, \<open>comments_db\<close>, \<open>tags_db\<close>, \<open>post_counter\<close>,
  \<open>comment_counter\<close>) and an upload directory. Every route handler is modelled as a function
  from the store (and the request) to an outcome and the store it leaves behind. An outcome is
  \<open>Inr\<close> of the response or \<open>Inl\<close> of the exception that ended the handler; the store is
  returned in both cases, because a handler may raise after it has already mutated a global.
\<close>

subsection \<open>Strings\<close>

text \<open>
  A Python \<open>str\<close> is modelled as a \<open>string\<close> whose characters are the code points below 256.
  On that range \<open>str.lower\<close> maps \<open>A\<close>..\<open>Z\<close> and the Latin-1 capitals (192..222 except 215) to
  the code point 32 above, and \<open>str.strip\<close> removes the code points 9..13, 28..32, 133 and 160
  from both ends.
\<close>

definition lower_char :: "char \<Rightarrow> char" where
  "lower_char c =
     (let n = (of_char c :: nat)
      in if (65 \<le> n \<and> n \<le> 90) \<or> (192 \<le> n \<and> n \<le> 222 \<and> n \<noteq> 215)
         then char_of (n + 32) else c)"

definition lower :: "string \<Rightarrow> string" where
  "lower s = map lower_char s"

definition isspace :: "char \<Rightarrow> bool" where
  "isspace c =
     (let n = (of_char c :: nat)
      in (9 \<le> n \<and> n \<le> 13) \<or> (28 \<le> n \<and> n \<le> 32) \<or> n = 133 \<or> n = 160)"

definition strip :: "string \<Rightarrow> string" where
  "strip s = rev (dropWhile isspace (rev (dropWhile isspace s)))"

text \<open>\<open>s.split(sep)[-1]\<close> for a one-character separator: what follows the last separator.\<close>

definition split_last :: "char \<Rightarrow> string \<Rightarrow> string" where
  "split_last sep s = rev (takeWhile (\<lambda>c. c \<noteq> sep) (rev s))"

text \<open>\<open>s.split(sep)\<close> for a one-character separator.\<close>

fun split_on :: "char \<Rightarrow> string \<Rightarrow> string list" where
  "split_on sep [] = [[]]"
| "split_on sep (c # cs) =
     (if c = sep then [] # split_on sep cs
      else (case split_on sep cs of [] \<Rightarrow> [[c]] | w # ws \<Rightarrow> (c # w) # ws))"

text \<open>
  The components that \<open>pathlib\<close> keeps of a relative POSIX path given as a string: the
  string is cut at every slash, and empty components and single dots are dropped, so that
  \<open>UPLOAD_DIR / "x.png/"\<close> is the path \<open>uploads/x.png\<close> and \<open>UPLOAD_DIR / ""\<close> is the
  directory \<open>uploads\<close> itself.
\<close>

definition path_parts :: "string \<Rightarrow> string list" where
  "path_parts s = filter (\<lambda>c. c \<noteq> [] \<and> c \<noteq> ''.'') (split_on CHR ''/'' s)"

text \<open>Python truthiness of an \<open>Optional[str]\<close>: neither \<open>None\<close> nor the empty string.\<close>

fun truthy :: "string option \<Rightarrow> bool" where
  "truthy None = False"
| "truthy (Some s) = (s \<noteq> [])"

subsection \<open>Dictionaries\<close>

text \<open>
  A Python \<open>dict\<close> keeps its keys in insertion order, and \<open>list(d.values())\<close> and
  \<open>d.items()\<close> read them in that order, so a dictionary is an association list:
  assigning to a present key replaces the value in place, assigning to a new key appends.
\<close>

type_synonym ('k, 'v) dict = "('k \<times> 'v) list"

fun dict_get :: "('k, 'v) dict \<Rightarrow> 'k \<Rightarrow> 'v option" where
  "dict_get [] k = None"
| "dict_get ((k', v) # d) k = (if k' = k then Some v else dict_get d k)"

fun dict_set :: "('k, 'v) dict \<Rightarrow> 'k \<Rightarrow> 'v \<Rightarrow> ('k, 'v) dict" where
  "dict_set [] k v = [(k, v)]"
| "dict_set ((k', v') # d) k v = (if k' = k then (k, v) # d else (k', v') # dict_set d k v)"

fun dict_del :: "('k, 'v) dict \<Rightarrow> 'k \<Rightarrow> ('k, 'v) dict" where
  "dict_del [] k = []"
| "dict_del ((k', v) # d) k = (if k' = k then dict_del d k else (k', v) # dict_del d k)"

definition dict_values :: "('k, 'v) dict \<Rightarrow> 'v list" where
  "dict_values d = map snd d"

definition dict_keys :: "('k, 'v) dict \<Rightarrow> 'k list" where
  "dict_keys d = map fst d"

text \<open>\<open>xs[start:end]\<close> with Python's clamping of both indices.\<close>

definition clamp_index :: "int \<Rightarrow> nat \<Rightarrow> nat" where
  "clamp_index i n = (if i < 0 then nat (max 0 (i + int n)) else min (nat i) n)"

definition slice :: "'a list \<Rightarrow> int \<Rightarrow> int \<Rightarrow> 'a list" where
  "slice xs start stop =
     (let a = clamp_index start (length xs); b = clamp_index stop (length xs)
      in take (b - a) (drop a xs))"

subsection \<open>Records and exceptions\<close>

type_synonym datetime = int

text \<open>
  The dictionary stored under a post id. \<open>update_post\<close> writes whatever \<open>PostUpdate\<close> carries,
  and \<open>PostUpdate\<close> declares \<open>title\<close>, \<open>content\<close> and \<open>published\<close> as \<open>Optional\<close>, so these
  three entries may hold \<open>None\<close>. The entry \<open>"id"\<close> is the field \<open>pid\<close>.
\<close>

record post =
  pid :: int
  author :: string
  image_url :: "string option"
  views :: int
  created_at :: datetime
  updated_at :: datetime
  title :: "string option"
  content :: "string option"
  tags :: "string list"
  published :: "bool option"

text \<open>The dictionary stored under a comment id (\<open>"id"\<close> is \<open>cid\<close>).\<close>

record comment =
  cid :: int
  post_id :: int
  comment_created_at :: datetime
  comment_content :: string
  comment_author :: string

text \<open>The request body \<open>PostCreate\<close>.\<close>

record PostCreate =
  new_title :: string
  new_content :: string
  new_tags :: "string list"
  new_published :: bool

text \<open>
  A field of \<open>PostUpdate\<close>: left out of the request body (\<open>Unset\<close>, dropped by
  \<open>dict(exclude_unset=True)\<close>) or given, possibly as an explicit \<open>null\<close> (\<open>Given None\<close>).
\<close>

datatype 'a field = Unset | Given "'a option"

record PostUpdate =
  upd_title :: "string field"
  upd_content :: "string field"
  upd_tags :: "string list field"
  upd_published :: "bool field"

record PaginatedPosts =
  items :: "post list"
  total :: int
  page :: int
  page_size :: int
  total_pages :: int

record PostStats =
  total_posts :: int
  published_posts :: int
  draft_posts :: int
  total_views :: int
  total_comments :: int
  popular_tags :: "(string \<times> int) list"

text \<open>
  \<open>NotFoundError\<close> is \<open>HTTPException(404)\<close>, \<open>InvalidMediaError\<close> is \<open>HTTPException(400)\<close>,
  \<open>ValidationError\<close> is the rejection of a request by the declared parameter and body models
  before the handler body runs. \<open>Unhandled\<close> is an exception raised inside a handler body that
  nothing catches; \<open>ModelValidation\<close> is the one a model constructor raises on values it
  does not accept.
\<close>

datatype exc = ModelValidation | TypeError | AttributeError | ValueError | OSError

datatype error = NotFoundError | InvalidMediaError | ValidationError | Unhandled exc

record store =
  posts_db :: "(int, post) dict"
  comments_db :: "(int, comment) dict"
  tags_db :: "string set"
  post_counter :: int
  comment_counter :: int
  uploads :: "string set"

definition init_store :: store where
  "init_store = \<lparr>posts_db = [], comments_db = [], tags_db = {}, post_counter = 0,
     comment_counter = 0, uploads = {}\<rparr>"

subsection \<open>Models and helper functions\<close>

text \<open>The validator of \<open>PostBase\<close>, inherited by \<open>PostCreate\<close> and \<open>Post\<close>.\<close>

definition title_must_not_be_empty :: "string \<Rightarrow> bool" where
  "title_must_not_be_empty v = (strip v \<noteq> [])"

text \<open>
  \<open>Post(**p)\<close> builds the response model from a stored dictionary. It accepts the dictionary
  when \<open>title\<close> is a string that passes the validator and \<open>content\<close> and \<open>published\<close> are
  not \<open>None\<close>; the model then carries the dictionary's values.
\<close>

definition Post_accepts :: "post \<Rightarrow> bool" where
  "Post_accepts p =
     ((case title p of None \<Rightarrow> False | Some t \<Rightarrow> title_must_not_be_empty t)
      \<and> content p \<noteq> None \<and> published p \<noteq> None)"

definition Post :: "post \<Rightarrow> error + post" where
  "Post p = (if Post_accepts p then Inr p else Inl (Unhandled ModelValidation))"

fun Posts :: "post list \<Rightarrow> error + post list" where
  "Posts [] = Inr []"
| "Posts (p # ps) =
     (case Post p of Inl e \<Rightarrow> Inl e
      | Inr q \<Rightarrow> (case Posts ps of Inl e \<Rightarrow> Inl e | Inr qs \<Rightarrow> Inr (q # qs)))"

definition get_post_or_404 :: "store \<Rightarrow> int \<Rightarrow> error + post" where
  "get_post_or_404 s i =
     (case dict_get (posts_db s) i of None \<Rightarrow> Inl NotFoundError | Some p \<Rightarrow> Inr p)"

definition increment_views :: "store \<Rightarrow> int \<Rightarrow> store" where
  "increment_views s i =
     (case dict_get (posts_db s) i of
        None \<Rightarrow> s
      | Some p \<Rightarrow> s\<lparr>posts_db := dict_set (posts_db s) i (p\<lparr>views := views p + 1\<rparr>)\<rparr>)"

definition calculate_pagination :: "int \<Rightarrow> int \<Rightarrow> int \<Rightarrow> int" where
  "calculate_pagination tot pg sz = (tot + sz - 1) div sz"

text \<open>\<open>for tag in tags: tags_db.add(tag.lower())\<close>\<close>

definition register_tags :: "string set \<Rightarrow> string list \<Rightarrow> string set" where
  "register_tags db ts = foldl (\<lambda>acc t. insert (lower t) acc) db ts"

text \<open>\<open>xs.sort(key=lambda x: x["created_at"], reverse=True)\<close>: stable, newest first.\<close>

definition sort_newest_first :: "post list \<Rightarrow> post list" where
  "sort_newest_first ps = sort_key (\<lambda>p. - created_at p) ps"

definition sort_comments_newest_first :: "comment list \<Rightarrow> comment list" where
  "sort_comments_newest_first cs = sort_key (\<lambda>c. - comment_created_at c) cs"

subsection \<open>Route handlers\<close>

text \<open>
  \<open>POST /posts\<close>. The body model \<open>PostCreate\<close> and the query parameter
  \<open>author\<close> (\<open>min_length=3\<close>) are validated before the handler body runs.
\<close>

definition create_post :: "store \<Rightarrow> datetime \<Rightarrow> PostCreate \<Rightarrow> string \<Rightarrow> (error + post) \<times> store" where
  "create_post s now body auth =
     (if \<not> title_must_not_be_empty (new_title body) \<or> length auth < 3
      then (Inl ValidationError, s)
      else
        let s1 = s\<lparr>post_counter := post_counter s + 1\<rparr>;
            s2 = s1\<lparr>tags_db := register_tags (tags_db s1) (new_tags body)\<rparr>;
            post_data = \<lparr>pid = post_counter s2, author = auth, image_url = None, views = 0,
              created_at = now, updated_at = now, title = Some (new_title body),
              content = Some (new_content body), tags = new_tags body,
              published = Some (new_published body)\<rparr>;
            s3 = s2\<lparr>posts_db := dict_set (posts_db s2) (post_counter s2) post_data\<rparr>
        in (Post post_data, s3))"

text \<open>
  \<open>POST /posts/{post_id}/image\<close>. The file system is outside the store. Of it the store
  keeps the set \<open>uploads\<close> of the names of the plain files in the upload directory, which
  holds no directories. \<open>uuid\<close> is the value of \<open>str(uuid.uuid4())\<close>, 36 hexadecimal digits
  and hyphens. The file is written to \<open>UPLOAD_DIR / unique_filename\<close>: when that path is a
  plain name in the directory of at most 255 bytes, what happens is up to the operating
  system and is the argument \<open>outcome\<close> (the file is written; \<open>open\<close> raises, as on a full
  disk; the file is created and the copy raises). \<open>open\<close> always raises when the name has a
  null byte, when it is longer than 255 bytes, and when the path is the directory itself,
  the one above it, or a file in a directory below it. The stored url keeps
  \<open>unique_filename\<close> as it is, also when the path has dropped a slash at its end.
\<close>

datatype file_write = Written | Open_raises | Copy_raises

definition upload_post_image ::
  "store \<Rightarrow> datetime \<Rightarrow> int \<Rightarrow> string option \<Rightarrow> string option \<Rightarrow> string \<Rightarrow> file_write
     \<Rightarrow> (error + string \<times> string) \<times> store" where
  "upload_post_image s now i content_type filename uuid outcome =
     (case get_post_or_404 s i of
        Inl e \<Rightarrow> (Inl e, s)
      | Inr post \<Rightarrow>
          (case content_type of
             None \<Rightarrow> (Inl (Unhandled AttributeError), s)
           | Some ct \<Rightarrow>
               if \<not> prefix ''image/'' ct then (Inl InvalidMediaError, s)
               else
                 (case filename of
                    None \<Rightarrow> (Inl (Unhandled AttributeError), s)
                  | Some fn \<Rightarrow>
                      let file_extension = split_last CHR ''.'' fn;
                          unique_filename = uuid @ ''.'' @ file_extension
                      in if CHR 0x00 \<in> set unique_filename
                         then (Inl (Unhandled ValueError), s)
                         else
                         (case path_parts unique_filename of
                            [name] \<Rightarrow>
                              if name = ''..'' \<or> 255 < length name
                              then (Inl (Unhandled OSError), s)
                              else
                                (case outcome of
                                   Open_raises \<Rightarrow> (Inl (Unhandled OSError), s)
                                 | Copy_raises \<Rightarrow>
                                     (Inl (Unhandled OSError),
                                      s\<lparr>uploads := insert name (uploads s)\<rparr>)
                                 | Written \<Rightarrow>
                                     let s1 = s\<lparr>uploads := insert name (uploads s)\<rparr>;
                                         url = ''/uploads/'' @ unique_filename;
                                         post' = post\<lparr>image_url := Some url,
                                                   updated_at := now\<rparr>;
                                         s2 = s1\<lparr>posts_db := dict_set (posts_db s1) i post'\<rparr>
                                     in (Inr (''Image uploaded successfully'', url), s2))
                          | _ \<Rightarrow> (Inl (Unhandled OSError), s)))))"

text \<open>
  \<open>GET /posts\<close>. The three comprehensions of the handler: the tag test and the published
  test cannot raise; the search test calls \<open>.lower()\<close> on \<open>title\<close> and, when the title
  does not match, on \<open>content\<close>, which raises on \<open>None\<close>.
\<close>

definition tag_matches :: "string \<Rightarrow> post \<Rightarrow> bool" where
  "tag_matches tag p = (lower tag \<in> set (map lower (tags p)))"

definition published_matches :: "bool \<Rightarrow> post \<Rightarrow> bool" where
  "published_matches b p = (published p = Some b)"

definition search_matches :: "string \<Rightarrow> post \<Rightarrow> error + bool" where
  "search_matches search_lower p =
     (case title p of
        None \<Rightarrow> Inl (Unhandled AttributeError)
      | Some t \<Rightarrow>
          if sublist search_lower (lower t) then Inr True
          else (case content p of
                  None \<Rightarrow> Inl (Unhandled AttributeError)
                | Some c \<Rightarrow> Inr (sublist search_lower (lower c))))"

fun filter_raising :: "('a \<Rightarrow> error + bool) \<Rightarrow> 'a list \<Rightarrow> error + 'a list" where
  "filter_raising f [] = Inr []"
| "filter_raising f (x # xs) =
     (case f x of
        Inl e \<Rightarrow> Inl e
      | Inr b \<Rightarrow>
          (case filter_raising f xs of
             Inl e \<Rightarrow> Inl e
           | Inr ys \<Rightarrow> Inr (if b then x # ys else ys)))"

definition filter_posts ::
  "post list \<Rightarrow> string option \<Rightarrow> bool option \<Rightarrow> string option \<Rightarrow> error + post list" where
  "filter_posts all_posts tag pub search =
     (let f1 = (case tag of
                  None \<Rightarrow> all_posts
                | Some t \<Rightarrow> if t \<noteq> [] then filter (tag_matches t) all_posts else all_posts);
          f2 = (case pub of None \<Rightarrow> f1 | Some b \<Rightarrow> filter (published_matches b) f1)
      in case search of
           None \<Rightarrow> Inr f2
         | Some q \<Rightarrow> if q \<noteq> [] then filter_raising (search_matches (lower q)) f2 else Inr f2)"

text \<open>The list \<open>filtered_posts\<close> of the handler after its \<open>sort\<close>.\<close>

definition filtered_posts ::
  "store \<Rightarrow> string option \<Rightarrow> bool option \<Rightarrow> string option \<Rightarrow> error + post list" where
  "filtered_posts s tag pub search =
     (case filter_posts (dict_values (posts_db s)) tag pub search of
        Inl e \<Rightarrow> Inl e
      | Inr fs \<Rightarrow> Inr (sort_newest_first fs))"

definition get_posts ::
  "store \<Rightarrow> int \<Rightarrow> int \<Rightarrow> string option \<Rightarrow> bool option \<Rightarrow> string option
     \<Rightarrow> error + PaginatedPosts" where
  "get_posts s pg sz tag pub search =
     (if pg < 1 \<or> sz < 1 \<or> 100 < sz then Inl ValidationError
      else
        (case filtered_posts s tag pub search of
           Inl e \<Rightarrow> Inl e
         | Inr fs \<Rightarrow>
             let tot = int (length fs);
                 tp = calculate_pagination tot pg sz;
                 start = (pg - 1) * sz;
                 stop = start + sz;
                 paginated_posts = slice fs start stop
             in (case Posts paginated_posts of
                   Inl e \<Rightarrow> Inl e
                 | Inr ps \<Rightarrow>
                     Inr \<lparr>items = ps, total = tot, page = pg, page_size = sz,
                          total_pages = tp\<rparr>)))"

text \<open>
  \<open>GET /posts/{post_id}\<close>. \<open>post\<close> is the stored dictionary itself, so the response is built
  from it as \<open>increment_views\<close> has left it.
\<close>

definition current :: "store \<Rightarrow> int \<Rightarrow> post \<Rightarrow> post" where
  "current s i p = (case dict_get (posts_db s) i of None \<Rightarrow> p | Some q \<Rightarrow> q)"

definition get_post :: "store \<Rightarrow> int \<Rightarrow> (error + post) \<times> store" where
  "get_post s i =
     (case get_post_or_404 s i of
        Inl e \<Rightarrow> (Inl e, s)
      | Inr post \<Rightarrow>
          let s1 = increment_views s i
          in (Post (current s1 i post), s1))"

text \<open>
  \<open>PUT /posts/{post_id}\<close>. \<open>update_data\<close> holds the given fields in declaration order.
  Iterating over \<open>update_data["tags"]\<close> raises when it is \<open>None\<close>, before anything is written.
  The assignments go to the stored dictionary, and \<open>Post(**post)\<close> is built only afterwards.
\<close>

definition apply_update :: "post \<Rightarrow> PostUpdate \<Rightarrow> post" where
  "apply_update p u =
     (let p1 = (case upd_title u of Unset \<Rightarrow> p | Given v \<Rightarrow> p\<lparr>title := v\<rparr>);
          p2 = (case upd_content u of Unset \<Rightarrow> p1 | Given v \<Rightarrow> p1\<lparr>content := v\<rparr>);
          p3 = (case upd_tags u of
                  Unset \<Rightarrow> p2
                | Given None \<Rightarrow> p2
                | Given (Some ts) \<Rightarrow> p2\<lparr>tags := ts\<rparr>)
      in (case upd_published u of Unset \<Rightarrow> p3 | Given v \<Rightarrow> p3\<lparr>published := v\<rparr>))"

definition update_post :: "store \<Rightarrow> datetime \<Rightarrow> int \<Rightarrow> PostUpdate \<Rightarrow> (error + post) \<times> store" where
  "update_post s now i u =
     (case get_post_or_404 s i of
        Inl e \<Rightarrow> (Inl e, s)
      | Inr post \<Rightarrow>
          (case upd_tags u of
             Given None \<Rightarrow> (Inl (Unhandled TypeError), s)
           | _ \<Rightarrow>
               let s1 = (case upd_tags u of
                           Given (Some ts) \<Rightarrow> s\<lparr>tags_db := register_tags (tags_db s) ts\<rparr>
                         | _ \<Rightarrow> s);
                   post' = (apply_update post u)\<lparr>updated_at := now\<rparr>;
                   s2 = s1\<lparr>posts_db := dict_set (posts_db s1) i post'\<rparr>
               in (Post post', s2)))"

text \<open>
  \<open>DELETE /posts/{post_id}\<close>. First the image: when \<open>image_url\<close> is set, \<open>image_path\<close> is
  \<open>UPLOAD_DIR\<close> joined with what follows the last slash of the url. When nothing follows it
  (or a dot, or two dots), \<open>image_path\<close> is a directory: it exists, and \<open>unlink\<close> raises.
  Otherwise it is a plain name; when the file exists, \<open>unlink\<close> removes it or raises, which
  is up to the operating system and is the argument \<open>unlink_ok\<close>. Nothing catches what
  \<open>unlink\<close> raises, so the handler ends there, before it has deleted anything.
\<close>

definition unlink_image :: "store \<Rightarrow> post \<Rightarrow> bool \<Rightarrow> error + store" where
  "unlink_image s post unlink_ok =
     (case image_url post of
        None \<Rightarrow> Inr s
      | Some url \<Rightarrow>
          if url = [] then Inr s
          else
            (let name = split_last CHR ''/'' url
             in if name = [] \<or> name = ''.'' \<or> name = ''..'' then Inl (Unhandled OSError)
                else if name \<in> uploads s
                then (if unlink_ok then Inr (s\<lparr>uploads := uploads s - {name}\<rparr>)
                      else Inl (Unhandled OSError))
                else Inr s))"

text \<open>Then every comment of the post is deleted, then the post.\<close>

definition delete_post :: "store \<Rightarrow> int \<Rightarrow> bool \<Rightarrow> (error + unit) \<times> store" where
  "delete_post s i unlink_ok =
     (case get_post_or_404 s i of
        Inl e \<Rightarrow> (Inl e, s)
      | Inr post \<Rightarrow>
          (case unlink_image s post unlink_ok of
             Inl e \<Rightarrow> (Inl e, s)
           | Inr s1 \<Rightarrow>
               let comments_to_delete =
                     map fst (filter (\<lambda>kc. post_id (snd kc) = i) (comments_db s1));
                   s2 = s1\<lparr>comments_db := foldl dict_del (comments_db s1) comments_to_delete\<rparr>;
                   s3 = s2\<lparr>posts_db := dict_del (posts_db s2) i\<rparr>
               in (Inr (), s3)))"

text \<open>\<open>POST /posts/{post_id}/comments\<close>, \<open>GET /posts/{post_id}/comments\<close>, \<open>DELETE /comments/{comment_id}\<close>\<close>

definition create_comment ::
  "store \<Rightarrow> datetime \<Rightarrow> int \<Rightarrow> string \<Rightarrow> string \<Rightarrow> (error + comment) \<times> store" where
  "create_comment s now i msg auth =
     (case get_post_or_404 s i of
        Inl e \<Rightarrow> (Inl e, s)
      | Inr post \<Rightarrow>
          let s1 = s\<lparr>comment_counter := comment_counter s + 1\<rparr>;
              comment_data = \<lparr>cid = comment_counter s1, post_id = i, comment_created_at = now,
                comment_content = msg, comment_author = auth\<rparr>;
              s2 = s1\<lparr>comments_db := dict_set (comments_db s1) (comment_counter s1) comment_data\<rparr>
          in (Inr comment_data, s2))"

definition get_comments :: "store \<Rightarrow> int \<Rightarrow> error + comment list" where
  "get_comments s i =
     (case get_post_or_404 s i of
        Inl e \<Rightarrow> Inl e
      | Inr post \<Rightarrow>
          Inr (sort_comments_newest_first
                 (filter (\<lambda>c. post_id c = i) (dict_values (comments_db s)))))"

definition delete_comment :: "store \<Rightarrow> int \<Rightarrow> (error + unit) \<times> store" where
  "delete_comment s c =
     (if c \<notin> set (dict_keys (comments_db s)) then (Inl NotFoundError, s)
      else (Inr (), s\<lparr>comments_db := dict_del (comments_db s) c\<rparr>))"

text \<open>\<open>GET /tags\<close>, \<open>GET /tags/{tag_name}/posts\<close>\<close>

definition get_tags :: "store \<Rightarrow> string list" where
  "get_tags s = sorted_list_of_set (tags_db s)"

definition get_posts_by_tag :: "store \<Rightarrow> string \<Rightarrow> error + post list" where
  "get_posts_by_tag s tag_name =
     Posts (sort_newest_first (filter (tag_matches tag_name) (dict_values (posts_db s))))"

text \<open>\<open>GET /stats\<close>\<close>

definition count_tag :: "(string, int) dict \<Rightarrow> string \<Rightarrow> (string, int) dict" where
  "count_tag tag_counts tag =
     dict_set tag_counts tag ((case dict_get tag_counts tag of None \<Rightarrow> 0 | Some n \<Rightarrow> n) + 1)"

definition tag_counts_of :: "post list \<Rightarrow> (string, int) dict" where
  "tag_counts_of all_posts = foldl (\<lambda>tc p. foldl count_tag tc (tags p)) [] all_posts"

definition get_stats :: "store \<Rightarrow> PostStats" where
  "get_stats s =
     (let all_posts = dict_values (posts_db s);
          pub = filter (\<lambda>p. published p = Some True) all_posts;
          drafts = filter (\<lambda>p. \<not> (published p = Some True)) all_posts;
          tv = sum_list (map views all_posts);
          tag_counts = tag_counts_of all_posts;
          popular = take 5 (sort_key (\<lambda>tc. - snd tc) tag_counts)
      in \<lparr>total_posts = int (length all_posts), published_posts = int (length pub),
           draft_posts = int (length drafts), total_views = tv,
           total_comments = int (length (comments_db s)), popular_tags = popular\<rparr>)"

subsection \<open>Requests against the store\<close>

datatype request =
    Create_post datetime PostCreate string
  | Upload_post_image datetime int "string option" "string option" string file_write
  | Get_posts int int "string option" "bool option" "string option"
  | Get_post int
  | Update_post datetime int PostUpdate
  | Delete_post int bool
  | Create_comment datetime int string string
  | Get_comments int
  | Delete_comment int
  | Get_tags
  | Get_posts_by_tag string
  | Get_stats

text \<open>The store a request leaves behind, whether its handler returned or raised.\<close>

fun handle :: "store \<Rightarrow> request \<Rightarrow> store" where
  "handle s (Create_post now body auth) = snd (create_post s now body auth)"
| "handle s (Upload_post_image now i ct fn uuid w) = snd (upload_post_image s now i ct fn uuid w)"
| "handle s (Get_posts pg sz tag pub search) = s"
| "handle s (Get_post i) = snd (get_post s i)"
| "handle s (Update_post now i u) = snd (update_post s now i u)"
| "handle s (Delete_post i ok) = snd (delete_post s i ok)"
| "handle s (Create_comment now i msg auth) = snd (create_comment s now i msg auth)"
| "handle s (Get_comments i) = s"
| "handle s (Delete_comment c) = snd (delete_comment s c)"
| "handle s Get_tags = s"
| "handle s (Get_posts_by_tag tag_name) = s"
| "handle s Get_stats = s"

definition run :: "store \<Rightarrow> request list \<Rightarrow> store" where
  "run s rs = foldl handle s rs"

subsection \<open>Observations and invariants\<close>

text \<open>The view counter of the post stored under an id, if there is one.\<close>

definition views_of :: "store \<Rightarrow> int \<Rightarrow> int option" where
  "views_of s i = map_option views (dict_get (posts_db s) i)"

text \<open>\<open>n\<close> calls of \<open>get_post\<close> on the same id, one after the other, with their outcomes.\<close>

fun get_post_times :: "nat \<Rightarrow> store \<Rightarrow> int \<Rightarrow> (error + post) list \<times> store" where
  "get_post_times 0 s i = ([], s)"
| "get_post_times (Suc n) s i =
     (case get_post s i of
        (r, s1) \<Rightarrow> (case get_post_times n s1 i of (rs, s2) \<Rightarrow> (r # rs, s2)))"

text \<open>
  The registry invariant: the lowercase form of every tag of every stored post is in
  \<open>tags_db\<close>.
\<close>

definition tags_registered :: "store \<Rightarrow> bool" where
  "tags_registered s =
     (\<forall>p\<in>set (dict_values (posts_db s)). \<forall>t\<in>set (tags p). lower t \<in> tags_db s)"

text \<open>The title invariant: every stored post has a title that passes the validator.\<close>

definition titles_valid :: "store \<Rightarrow> bool" where
  "titles_valid s =
     (\<forall>p\<in>set (dict_values (posts_db s)).
        case title p of None \<Rightarrow> False | Some t \<Rightarrow> title_must_not_be_empty t)"

text \<open>The distinct elements of a list in the order in which they first appear.\<close>

definition first_seen :: "'a list \<Rightarrow> 'a list" where
  "first_seen xs = rev (remdups (rev xs))"

text \<open>
  The conjunctive filter in the words of the specification, to be compared with
  \<open>filter_posts\<close>: every supplied filter must match. A tag filter matches when its
  lowercase form is the lowercase form of one of the post's tags, a published filter when
  the flag equals it, a search filter when its lowercase form occurs in the lowercase title
  or content. An empty tag string stands for no tag filter.
\<close>

definition satisfies_filters :: "string option \<Rightarrow> bool option \<Rightarrow> string option \<Rightarrow> post \<Rightarrow> bool" where
  "satisfies_filters tag pub search p =
     ((case tag of None \<Rightarrow> True | Some t \<Rightarrow> t = [] \<or> lower t \<in> lower ` set (tags p))
      \<and> (case pub of None \<Rightarrow> True | Some b \<Rightarrow> published p = Some b)
      \<and> (case search of
            None \<Rightarrow> True
          | Some q \<Rightarrow>
              (case title p of None \<Rightarrow> False | Some t \<Rightarrow> sublist (lower q) (lower t))
              \<or> (case content p of None \<Rightarrow> False | Some c \<Rightarrow> sublist (lower q) (lower c))))"

subsection \<open>Example requests and stores\<close>

definition hello_body :: PostCreate where
  "hello_body = \<lparr>new_title = ''Hello'', new_content = ''First post'',
     new_tags = [''Go'', ''go''], new_published = False\<rparr>"

definition second_body :: PostCreate where
  "second_body = \<lparr>new_title = ''Second'', new_content = ''More text'',
     new_tags = [''Rust''], new_published = True\<rparr>"

text \<open>A title of a space, a tab and a line feed.\<close>

definition blank_body :: PostCreate where
  "blank_body = \<lparr>new_title = [CHR '' '', CHR 0x09, CHR 0x0A], new_content = ''text'',
     new_tags = [''Rust''], new_published = True\<rparr>"

definition blank_title_update :: PostUpdate where
  "blank_title_update = \<lparr>upd_title = Given (Some ''  ''), upd_content = Unset, upd_tags = Unset,
     upd_published = Unset\<rparr>"

definition null_tags_update :: PostUpdate where
  "null_tags_update = \<lparr>upd_title = Given (Some ''New''), upd_content = Unset,
     upd_tags = Given None, upd_published = Unset\<rparr>"

definition publish_only :: PostUpdate where
  "publish_only = \<lparr>upd_title = Unset, upd_content = Unset, upd_tags = Unset,
     upd_published = Given (Some True)\<rparr>"

text \<open>The store after one post has been created, and that post.\<close>

definition store1 :: store where
  "store1 = snd (create_post init_store 100 hello_body ''alice'')"

definition hello_post :: post where
  "hello_post = \<lparr>pid = 1, author = ''alice'', image_url = None, views = 0, created_at = 100,
     updated_at = 100, title = Some ''Hello'', content = Some ''First post'',
     tags = [''Go'', ''go''], published = Some False\<rparr>"

text \<open>The store after the post has been created and then sent a blank title.\<close>

definition store2 :: store where
  "store2 = run init_store
     [Create_post 100 hello_body ''alice'', Update_post 300 1 blank_title_update]"

text \<open>Two posts, with two comments on the first and one on the second.\<close>

definition store3 :: store where
  "store3 = run init_store
     [Create_post 100 hello_body ''alice'', Create_post 110 second_body ''bob'',
      Create_comment 120 1 ''nice'' ''carol'', Create_comment 130 2 ''hmm'' ''dave'',
      Create_comment 140 1 ''again'' ''erin'']"

text \<open>
  One post with a comment and an image; the image was uploaded as \<open>image/png\<close> under the
  file name \<open>a./\<close>, and the file was written.
\<close>

definition slash_store :: store where
  "slash_store = run init_store
     [Create_post 100 hello_body ''alice'', Create_comment 120 1 ''nice'' ''carol'',
      Upload_post_image 150 1 (Some ''image/png'') (Some ''a./'')
        ''123e4567-e89b-42d3-a456-426614174000'' Written]"

text \<open>Three posts carrying seven different tags, three views, one comment.\<close>

definition stats_store :: store where
  "stats_store = run init_store
     [Create_post 100 \<lparr>new_title = ''One'', new_content = ''x'', new_tags = [''a'', ''b'', ''c''],
        new_published = True\<rparr> ''alice'',
      Create_post 110 \<lparr>new_title = ''Two'', new_content = ''y'', new_tags = [''b'', ''c'', ''d''],
        new_published = False\<rparr> ''alice'',
      Create_post 120 \<lparr>new_title = ''Three'', new_content = ''z'',
        new_tags = [''c'', ''e'', ''f'', ''g''], new_published = True\<rparr> ''bob'',
      Get_post 2, Get_post 2, Get_post 3, Create_comment 130 1 ''first'' ''carol'']"

section \<open>Properties\<close>

subsection \<open>Dictionaries and strings\<close>

lemma dict_get_set: "dict_get (dict_set d k v) k' = (if k' = k then Some v else dict_get d k')"
  by (induction d) auto

lemma dict_get_del: "dict_get (dict_del d k) k' = (if k' = k then None else dict_get d k')"
  by (induction d) auto

lemma dict_get_None_iff: "dict_get d k = None \<longleftrightarrow> k \<notin> set (dict_keys d)"
  by (induction d) (auto simp: dict_keys_def split: if_splits)

lemma dict_get_Some_in: "dict_get d k = Some v \<Longrightarrow> (k, v) \<in> set d"
  by (induction d) (auto split: if_splits)

lemma dict_get_distinct: "distinct (dict_keys d) \<Longrightarrow> (k, v) \<in> set d \<Longrightarrow> dict_get d k = Some v"
proof (induction d)
  case Nil
  then show ?case by simp
next
  case (Cons a d)
  obtain k' v' where a: "a = (k', v')" by (cases a)
  show ?case
  proof (cases "k' = k")
    case True
    with Cons.prems a have "k \<notin> fst ` set d" by (simp add: dict_keys_def)
    with Cons.prems a True have "v' = v" by (auto simp: image_iff)
    with a True show ?thesis by simp
  next
    case False
    with Cons a show ?thesis by (simp add: dict_keys_def)
  qed
qed

lemma dict_set_same: "dict_get d k = Some v \<Longrightarrow> dict_set d k v = d"
  by (induction d) (auto split: if_splits)

lemma dict_set_set: "dict_set (dict_set d k v) k w = dict_set d k w"
  by (induction d) auto

lemma dict_keys_set_present: "dict_get d k = Some v \<Longrightarrow> dict_keys (dict_set d k w) = dict_keys d"
  by (induction d) (auto simp: dict_keys_def split: if_splits)

lemma set_dict_set: "set (dict_set d k v) \<subseteq> insert (k, v) (set d)"
  by (induction d) (auto split: if_splits)

lemma dict_del_filter: "dict_del d k = filter (\<lambda>kv. fst kv \<noteq> k) d"
  by (induction d) auto

lemma dropWhile_again: "(\<forall>x\<in>set (dropWhile P xs). P x) \<longleftrightarrow> (\<forall>x\<in>set xs. P x)"
  by (induction xs) auto

lemma strip_empty_iff: "strip v = [] \<longleftrightarrow> (\<forall>c\<in>set v. isspace c)"
  by (simp add: strip_def dropWhile_again)

lemma values_dict_set: "set (dict_values (dict_set d k v)) \<subseteq> insert v (set (dict_values d))"
  using set_dict_set [of d k v] by (auto simp: dict_values_def)

lemma values_dict_del: "set (dict_values (dict_del d k)) \<subseteq> set (dict_values d)"
  by (auto simp: dict_values_def dict_del_filter)

lemma dict_get_value: "dict_get d k = Some v \<Longrightarrow> v \<in> set (dict_values d)"
  by (auto simp: dict_values_def dest: dict_get_Some_in intro: rev_image_eqI)

subsection \<open>Creating a post\<close>

lemma create_post_rejected:
  "\<not> title_must_not_be_empty (new_title body) \<or> length auth < 3 \<Longrightarrow>
     create_post s now body auth = (Inl ValidationError, s)"
  by (simp add: create_post_def)

lemma create_post_accepted:
  assumes "title_must_not_be_empty (new_title body)" and "3 \<le> length auth"
  shows "snd (create_post s now body auth) =
     s\<lparr>post_counter := post_counter s + 1,
       tags_db := register_tags (tags_db s) (new_tags body),
       posts_db := dict_set (posts_db s) (post_counter s + 1)
         \<lparr>pid = post_counter s + 1, author = auth, image_url = None, views = 0,
          created_at = now, updated_at = now, title = Some (new_title body),
          content = Some (new_content body), tags = new_tags body,
          published = Some (new_published body)\<rparr>\<rparr>"
  using assms by (simp add: create_post_def Let_def)

text \<open>
  C3. A \<open>create_post\<close> request whose title is empty or consists only of whitespace is
  rejected with \<open>ValidationError\<close> and leaves the whole store as it was: the posts, the
  comments, the tag registry and both counters.
\<close>

theorem create_post_blank_title:
  assumes "\<forall>c\<in>set (new_title body). isspace c"
  shows "create_post s now body auth = (Inl ValidationError, s)"
  using assms by (simp add: create_post_def title_must_not_be_empty_def strip_empty_iff)

theorem create_post_blank_title_witness:
  "create_post store1 200 blank_body ''alice'' = (Inl ValidationError, store1)"
  using create_post_blank_title [of blank_body store1 200 "''alice''"]
  by (simp add: blank_body_def isspace_def)

subsection \<open>The effect of each handler on the posts\<close>

lemma get_post_or_404_simps:
  "dict_get (posts_db s) i = None \<Longrightarrow> get_post_or_404 s i = Inl NotFoundError"
  "dict_get (posts_db s) i = Some p \<Longrightarrow> get_post_or_404 s i = Inr p"
  by (simp_all add: get_post_or_404_def)

lemma apply_update_frame:
  "pid (apply_update p u) = pid p"
  "author (apply_update p u) = author p"
  "image_url (apply_update p u) = image_url p"
  "views (apply_update p u) = views p"
  "created_at (apply_update p u) = created_at p"
  "updated_at (apply_update p u) = updated_at p"
  by (simp_all add: apply_update_def Let_def split: field.splits option.splits)

lemma apply_update_fields:
  "title (apply_update p u) = (case upd_title u of Unset \<Rightarrow> title p | Given v \<Rightarrow> v)"
  "content (apply_update p u) = (case upd_content u of Unset \<Rightarrow> content p | Given v \<Rightarrow> v)"
  "tags (apply_update p u) =
     (case upd_tags u of Unset \<Rightarrow> tags p | Given None \<Rightarrow> tags p | Given (Some ts) \<Rightarrow> ts)"
  "published (apply_update p u) = (case upd_published u of Unset \<Rightarrow> published p | Given v \<Rightarrow> v)"
  by (simp_all add: apply_update_def Let_def split: field.splits option.splits)

lemma update_post_missing:
  "dict_get (posts_db s) i = None \<Longrightarrow> update_post s now i u = (Inl NotFoundError, s)"
  by (simp add: update_post_def get_post_or_404_simps)

lemma update_post_null_tags:
  "dict_get (posts_db s) i = Some p \<Longrightarrow> upd_tags u = Given None \<Longrightarrow>
     update_post s now i u = (Inl (Unhandled TypeError), s)"
  by (simp add: update_post_def get_post_or_404_simps)

lemma update_post_existing:
  assumes "dict_get (posts_db s) i = Some p" and "upd_tags u \<noteq> Given None"
  shows "update_post s now i u =
    (Post ((apply_update p u)\<lparr>updated_at := now\<rparr>),
     s\<lparr>tags_db := (case upd_tags u of Unset \<Rightarrow> tags_db s | Given None \<Rightarrow> tags_db s
                    | Given (Some ts) \<Rightarrow> register_tags (tags_db s) ts),
       posts_db := dict_set (posts_db s) i ((apply_update p u)\<lparr>updated_at := now\<rparr>)\<rparr>)"
  using assms
  by (simp add: update_post_def get_post_or_404_simps Let_def split: field.splits option.splits)

lemma posts_db_update_post:
  "posts_db (snd (update_post s now i u)) =
     (case dict_get (posts_db s) i of
        None \<Rightarrow> posts_db s
      | Some p \<Rightarrow> if upd_tags u = Given None then posts_db s
                  else dict_set (posts_db s) i ((apply_update p u)\<lparr>updated_at := now\<rparr>))"
  by (simp add: update_post_missing update_post_null_tags update_post_existing split: option.splits)

lemma posts_db_upload_post_image:
  "posts_db (snd (upload_post_image s now i ct fn uuid w)) = posts_db s
   \<or> (\<exists>p url. dict_get (posts_db s) i = Some p \<and>
        posts_db (snd (upload_post_image s now i ct fn uuid w)) =
          dict_set (posts_db s) i (p\<lparr>image_url := Some url, updated_at := now\<rparr>))"
  by (auto simp: upload_post_image_def get_post_or_404_def Let_def
      split: option.splits list.splits file_write.splits)

lemma posts_db_create_comment:
  "posts_db (snd (create_comment s now i msg auth)) = posts_db s"
  by (simp add: create_comment_def get_post_or_404_def Let_def split: option.splits)

lemma unlink_image_frame:
  assumes "unlink_image s post ok = Inr s1"
  shows "posts_db s1 = posts_db s" and "comments_db s1 = comments_db s"
    and "tags_db s1 = tags_db s" and "post_counter s1 = post_counter s"
    and "comment_counter s1 = comment_counter s"
  using assms by (auto simp: unlink_image_def Let_def split: option.splits if_splits)

lemma delete_post_missing:
  "dict_get (posts_db s) i = None \<Longrightarrow> delete_post s i ok = (Inl NotFoundError, s)"
  by (simp add: delete_post_def get_post_or_404_simps)

lemma delete_post_raises:
  "dict_get (posts_db s) i = Some p \<Longrightarrow> unlink_image s p ok = Inl e \<Longrightarrow>
     delete_post s i ok = (Inl e, s)"
  by (simp add: delete_post_def get_post_or_404_simps)

lemma delete_post_returns:
  assumes "dict_get (posts_db s) i = Some p" and "unlink_image s p ok = Inr s1"
  shows "fst (delete_post s i ok) = Inr ()"
    and "posts_db (snd (delete_post s i ok)) = dict_del (posts_db s) i"
    and "comments_db (snd (delete_post s i ok)) =
           foldl dict_del (comments_db s)
             (map fst (filter (\<lambda>kc. post_id (snd kc) = i) (comments_db s)))"
    and "tags_db (snd (delete_post s i ok)) = tags_db s"
    and "post_counter (snd (delete_post s i ok)) = post_counter s"
    and "comment_counter (snd (delete_post s i ok)) = comment_counter s"
  using assms unlink_image_frame [OF assms(2)]
  by (simp_all add: delete_post_def get_post_or_404_simps Let_def)

text \<open>
  \<open>delete_post\<close> either raises and leaves the store as it was, or returns and has carried
  out the whole cascade.
\<close>

lemma delete_post_cases:
  obtains e where "delete_post s i ok = (Inl e, s)"
  | p where "dict_get (posts_db s) i = Some p" and "fst (delete_post s i ok) = Inr ()"
      and "posts_db (snd (delete_post s i ok)) = dict_del (posts_db s) i"
      and "comments_db (snd (delete_post s i ok)) =
           foldl dict_del (comments_db s)
             (map fst (filter (\<lambda>kc. post_id (snd kc) = i) (comments_db s)))"
      and "tags_db (snd (delete_post s i ok)) = tags_db s"
proof (cases "dict_get (posts_db s) i")
  case None
  then have "delete_post s i ok = (Inl NotFoundError, s)" by (rule delete_post_missing)
  then show ?thesis by (rule that(1))
next
  case (Some p)
  show ?thesis
  proof (cases "unlink_image s p ok")
    case (Inl e)
    with Some have "delete_post s i ok = (Inl e, s)" by (rule delete_post_raises)
    then show ?thesis by (rule that(1))
  next
    case (Inr s1)
    from delete_post_returns [OF Some Inr] Some show ?thesis by (intro that(2)) auto
  qed
qed

lemma posts_db_delete_post:
  "posts_db (snd (delete_post s i ok)) =
     (if fst (delete_post s i ok) = Inr () then dict_del (posts_db s) i else posts_db s)"
  by (rule delete_post_cases [of s i ok]) auto

lemma tags_db_delete_post: "tags_db (snd (delete_post s i ok)) = tags_db s"
  by (rule delete_post_cases [of s i ok]) auto

lemma posts_db_get_post:
  "posts_db (snd (get_post s i)) =
     (case dict_get (posts_db s) i of
        None \<Rightarrow> posts_db s
      | Some p \<Rightarrow> dict_set (posts_db s) i (p\<lparr>views := views p + 1\<rparr>))"
  by (simp add: get_post_def get_post_or_404_def increment_views_def Let_def split: option.splits)

subsection \<open>Reading a post\<close>

lemma get_post_missing:
  "dict_get (posts_db s) i = None \<Longrightarrow> get_post s i = (Inl NotFoundError, s)"
  by (simp add: get_post_def get_post_or_404_simps)

lemma get_post_existing:
  "dict_get (posts_db s) i = Some p \<Longrightarrow>
     get_post s i =
       (Post (p\<lparr>views := views p + 1\<rparr>),
        s\<lparr>posts_db := dict_set (posts_db s) i (p\<lparr>views := views p + 1\<rparr>)\<rparr>)"
  by (simp add: get_post_def get_post_or_404_simps increment_views_def current_def dict_get_set)

lemma get_post_times_Suc:
  "snd (get_post_times (Suc n) s i) = snd (get_post_times n (snd (get_post s i)) i)"
  "fst (get_post_times (Suc n) s i) =
     fst (get_post s i) # fst (get_post_times n (snd (get_post s i)) i)"
  by (simp_all split: prod.splits)

lemma get_post_times_existing:
  assumes "dict_get (posts_db s) i = Some p"
  shows "snd (get_post_times n s i) =
           s\<lparr>posts_db := dict_set (posts_db s) i (p\<lparr>views := views p + int n\<rparr>)\<rparr>
         \<and> (Post_accepts p \<longrightarrow>
              fst (get_post_times n s i) =
                map (\<lambda>k. Inr (p\<lparr>views := views p + int k\<rparr>)) [1..<Suc n])"
  using assms
proof (induction n arbitrary: s p)
  case 0
  then show ?case by (simp add: dict_set_same)
next
  case (Suc n)
  let ?q = "p\<lparr>views := views p + 1\<rparr>"
  let ?s1 = "s\<lparr>posts_db := dict_set (posts_db s) i ?q\<rparr>"
  have step: "get_post s i = (Post ?q, ?s1)"
    using Suc.prems by (rule get_post_existing)
  have q: "dict_get (posts_db ?s1) i = Some ?q"
    by (simp add: dict_get_set)
  note ih = Suc.IH [OF q]
  have "snd (get_post_times (Suc n) s i) = snd (get_post_times n ?s1 i)"
    by (simp only: get_post_times_Suc step snd_conv)
  also have "\<dots> = ?s1\<lparr>posts_db := dict_set (posts_db ?s1) i (?q\<lparr>views := views ?q + int n\<rparr>)\<rparr>"
    using ih by blast
  also have "\<dots> = s\<lparr>posts_db := dict_set (posts_db s) i (p\<lparr>views := views p + int (Suc n)\<rparr>)\<rparr>"
    by (simp add: dict_set_set algebra_simps)
  finally have state: "snd (get_post_times (Suc n) s i) =
      s\<lparr>posts_db := dict_set (posts_db s) i (p\<lparr>views := views p + int (Suc n)\<rparr>)\<rparr>" .
  have outs: "fst (get_post_times (Suc n) s i) =
      map (\<lambda>k. Inr (p\<lparr>views := views p + int k\<rparr>)) [1..<Suc (Suc n)]" if ok: "Post_accepts p"
  proof -
    have okq: "Post_accepts ?q" using ok by (simp add: Post_accepts_def)
    with ih have rest: "fst (get_post_times n ?s1 i) =
        map (\<lambda>k. Inr (?q\<lparr>views := views ?q + int k\<rparr>)) [1..<Suc n]" by blast
    have idx: "[1..<Suc (Suc n)] = 1 # map Suc [1..<Suc n]"
      by (simp only: map_Suc_upt) (simp add: upt_conv_Cons del: upt_Suc)
    have "fst (get_post_times (Suc n) s i) = Post ?q # fst (get_post_times n ?s1 i)"
      by (simp only: get_post_times_Suc step fst_conv snd_conv)
    also have "Post ?q = Inr ?q" using okq by (simp add: Post_def)
    finally show ?thesis
      by (simp only: rest idx) (simp add: comp_def algebra_simps del: upt_Suc)
  qed
  from state outs show ?case by blast
qed

text \<open>
  C2. \<open>get_post\<close> on an unknown id fails with \<open>NotFoundError\<close>; on an existing id it
  succeeds and counts exactly one view, changing nothing else, so that \<open>n\<close> calls count
  \<open>n\<close> views. The counting is as stated (\<open>get_post_missing\<close>, \<open>get_post_times_existing\<close>),
  and the call succeeds whenever the stored post passes the \<open>Post\<close> model. It does not
  succeed on every existing id: in \<open>store2\<close>, reached by creating a post and then sending
  \<open>update_post\<close> a blank title, the post exists, \<open>get_post\<close> counts the view and then
  raises from \<open>Post(**post)\<close>.
\<close>

theorem get_post_after_blank_title:
  "dict_keys (posts_db store2) = [1]
   \<and> fst (get_post store2 1) = Inl (Unhandled ModelValidation)
   \<and> views_of store2 1 = Some 0
   \<and> views_of (snd (get_post store2 1)) 1 = Some 1"
  by code_simp

subsection \<open>Which lookups count a view\<close>

text \<open>
  C10, as stated: the lookup through \<open>get_post_or_404\<close> made for another operation counts
  a view. It does not: \<open>update_post\<close> on post 1 of \<open>store1\<close> looks the post up and leaves
  its counter at 0.
\<close>

theorem lookup_counts_no_view_counterexample:
  "views_of store1 1 = Some 0
   \<and> views_of (snd (update_post store1 300 1 publish_only)) 1 = Some 0
   \<and> views_of (snd (update_post store1 300 1 publish_only)) 1
       \<noteq> map_option (\<lambda>v. v + 1) (views_of store1 1)"
  by code_simp

text \<open>
  C10, as amended. Only \<open>get_post\<close> counts a view: it calls \<open>increment_views\<close> after
  the lookup. \<open>get_post_or_404\<close> only reads, so the lookup it makes for another operation
  (\<open>update_post\<close>, \<open>upload_post_image\<close>, \<open>create_comment\<close>, \<open>get_comments\<close>,
  \<open>delete_post\<close>) counts no view: after the operation every post has the view counter it
  had, but for the post that \<open>delete_post\<close> has removed when it returns.
\<close>

theorem lookups_leave_views:
  "views_of (snd (update_post s now i u)) j = views_of s j
   \<and> views_of (snd (upload_post_image s now i ct fn uuid w)) j = views_of s j
   \<and> views_of (snd (create_comment s now i msg auth)) j = views_of s j
   \<and> views_of (handle s (Get_comments i)) j = views_of s j
   \<and> views_of (snd (delete_post s i ok)) j =
       (if fst (delete_post s i ok) = Inr () \<and> j = i then None else views_of s j)
   \<and> views_of (snd (get_post s i)) j =
       (if j = i then map_option (\<lambda>v. v + 1) (views_of s i) else views_of s j)"
proof (intro conjI)
  show "views_of (handle s (Get_comments i)) j = views_of s j" by simp
  show "views_of (snd (update_post s now i u)) j = views_of s j"
    by (auto simp: views_of_def posts_db_update_post dict_get_set apply_update_frame
        split: option.splits)
  show "views_of (snd (upload_post_image s now i ct fn uuid w)) j = views_of s j"
    using posts_db_upload_post_image [of s now i ct fn uuid w]
    by (auto simp: views_of_def dict_get_set)
  show "views_of (snd (create_comment s now i msg auth)) j = views_of s j"
    by (simp add: views_of_def posts_db_create_comment)
  show "views_of (snd (delete_post s i ok)) j =
       (if fst (delete_post s i ok) = Inr () \<and> j = i then None else views_of s j)"
    by (simp add: views_of_def posts_db_delete_post dict_get_del)
  show "views_of (snd (get_post s i)) j =
       (if j = i then map_option (\<lambda>v. v + 1) (views_of s i) else views_of s j)"
    by (auto simp: views_of_def posts_db_get_post dict_get_set split: option.splits)
qed

theorem lookups_leave_views_witness:
  "views_of (snd (update_post store1 300 1 publish_only)) 1 = Some 0
   \<and> views_of (snd (create_comment store1 300 1 ''nice'' ''carol'')) 1 = Some 0
   \<and> views_of (snd (get_post store1 1)) 1 = Some 1
   \<and> views_of (snd (delete_post store1 1 True)) 1 = None
   \<and> views_of (snd (delete_post slash_store 1 True)) 1 = Some 0"
proof -
  have a: "views_of store1 1 = Some 0" by code_simp
  have b: "fst (delete_post store1 1 True) = Inr ()" by code_simp
  have c: "views_of slash_store 1 = Some 0" by code_simp
  have d: "fst (delete_post slash_store 1 True) = Inl (Unhandled OSError)" by code_simp
  from a b lookups_leave_views
    [of store1 300 1 publish_only 1 None None "[]" Written "''nice''" "''carol''" True]
  have "views_of (snd (update_post store1 300 1 publish_only)) 1 = Some 0
   \<and> views_of (snd (create_comment store1 300 1 ''nice'' ''carol'')) 1 = Some 0
   \<and> views_of (snd (get_post store1 1)) 1 = Some 1
   \<and> views_of (snd (delete_post store1 1 True)) 1 = None"
    by simp
  moreover from c d lookups_leave_views
    [of slash_store 300 1 publish_only 1 None None "[]" Written "''nice''" "''carol''" True]
  have "views_of (snd (delete_post slash_store 1 True)) 1 = Some 0"
    by simp
  ultimately show ?thesis by simp
qed

subsection \<open>Updating a post\<close>

lemma update_post_partial:
  assumes p: "dict_get (posts_db s) i = Some p" and t: "upd_tags u \<noteq> Given None"
  shows "\<exists>q. dict_get (posts_db (snd (update_post s now i u))) i = Some q
     \<and> title q = (case upd_title u of Unset \<Rightarrow> title p | Given v \<Rightarrow> v)
     \<and> content q = (case upd_content u of Unset \<Rightarrow> content p | Given v \<Rightarrow> v)
     \<and> tags q = (case upd_tags u of Unset \<Rightarrow> tags p | Given None \<Rightarrow> tags p
                  | Given (Some ts) \<Rightarrow> ts)
     \<and> published q = (case upd_published u of Unset \<Rightarrow> published p | Given v \<Rightarrow> v)
     \<and> updated_at q = now
     \<and> pid q = pid p \<and> author q = author p \<and> image_url q = image_url p
     \<and> views q = views p \<and> created_at q = created_at p
     \<and> fst (update_post s now i u) = Post q
     \<and> (\<forall>j. j \<noteq> i \<longrightarrow>
           dict_get (posts_db (snd (update_post s now i u))) j = dict_get (posts_db s) j)
     \<and> dict_keys (posts_db (snd (update_post s now i u))) = dict_keys (posts_db s)
     \<and> comments_db (snd (update_post s now i u)) = comments_db s
     \<and> post_counter (snd (update_post s now i u)) = post_counter s
     \<and> comment_counter (snd (update_post s now i u)) = comment_counter s"
proof -
  let ?q = "(apply_update p u)\<lparr>updated_at := now\<rparr>"
  note e = update_post_existing [OF p t, of now]
  have "dict_get (posts_db (snd (update_post s now i u))) i = Some ?q"
    by (simp add: e dict_get_set)
  moreover have "\<forall>j. j \<noteq> i \<longrightarrow>
           dict_get (posts_db (snd (update_post s now i u))) j = dict_get (posts_db s) j"
    by (simp add: e dict_get_set)
  moreover have "dict_keys (posts_db (snd (update_post s now i u))) = dict_keys (posts_db s)"
    by (simp add: e dict_keys_set_present [OF p])
  moreover have "fst (update_post s now i u) = Post ?q" by (simp add: e)
  moreover have "comments_db (snd (update_post s now i u)) = comments_db s"
    "post_counter (snd (update_post s now i u)) = post_counter s"
    "comment_counter (snd (update_post s now i u)) = comment_counter s"
    by (simp_all add: e)
  ultimately show ?thesis
    by (intro exI [of _ ?q]) (simp add: apply_update_fields apply_update_frame)
qed

lemma update_post_success:
  assumes "fst (update_post s now i u) = Inr q"
  shows "Post_accepts q \<and> dict_get (posts_db (snd (update_post s now i u))) i = Some q"
proof (cases "dict_get (posts_db s) i")
  case None
  with assms show ?thesis by (simp add: update_post_missing)
next
  case (Some p)
  show ?thesis
  proof (cases "upd_tags u = Given None")
    case True
    with Some assms show ?thesis by (simp add: update_post_null_tags)
  next
    case False
    from assms show ?thesis
      by (simp add: update_post_existing [OF Some False] Post_def dict_get_set split: if_splits)
  qed
qed

lemma titles_valid_set:
  assumes "titles_valid s"
    and "case title q of None \<Rightarrow> False | Some t \<Rightarrow> title_must_not_be_empty t"
  shows "\<forall>p\<in>set (dict_values (dict_set (posts_db s) k q)).
           case title p of None \<Rightarrow> False | Some t \<Rightarrow> title_must_not_be_empty t"
  using assms values_dict_set [of "posts_db s" k q] by (auto simp: titles_valid_def)

lemma titles_valid_existing:
  "titles_valid s \<Longrightarrow> dict_get (posts_db s) i = Some p \<Longrightarrow>
     case title p of None \<Rightarrow> False | Some t \<Rightarrow> title_must_not_be_empty t"
  by (auto simp: titles_valid_def dest: dict_get_value)

lemma titles_valid_other_requests:
  assumes inv: "titles_valid s" and other: "\<forall>now i u. r \<noteq> Update_post now i u"
  shows "titles_valid (handle s r)"
proof (cases r)
  case (Create_post now body auth)
  show ?thesis
  proof (cases "title_must_not_be_empty (new_title body) \<and> 3 \<le> length auth")
    case True
    let ?q = "\<lparr>pid = post_counter s + 1, author = auth, image_url = None, views = 0,
          created_at = now, updated_at = now, title = Some (new_title body),
          content = Some (new_content body), tags = new_tags body,
          published = Some (new_published body)\<rparr>"
    from True have "case title ?q of None \<Rightarrow> False | Some t \<Rightarrow> title_must_not_be_empty t"
      by simp
    from titles_valid_set [OF inv this, of "post_counter s + 1"] True show ?thesis
      unfolding Create_post handle.simps titles_valid_def
      by (simp add: create_post_accepted)
  next
    case False
    then have "create_post s now body auth = (Inl ValidationError, s)"
      by (intro create_post_rejected) auto
    with Create_post inv show ?thesis by simp
  qed
next
  case (Upload_post_image now i ct fn uuid w)
  from posts_db_upload_post_image [of s now i ct fn uuid w]
  show ?thesis
  proof
    assume "posts_db (snd (upload_post_image s now i ct fn uuid w)) = posts_db s"
    with inv Upload_post_image show ?thesis by (simp add: titles_valid_def)
  next
    assume "\<exists>p url. dict_get (posts_db s) i = Some p \<and>
        posts_db (snd (upload_post_image s now i ct fn uuid w)) =
          dict_set (posts_db s) i (p\<lparr>image_url := Some url, updated_at := now\<rparr>)"
    then obtain p url where p: "dict_get (posts_db s) i = Some p"
      and eq: "posts_db (snd (upload_post_image s now i ct fn uuid w)) =
          dict_set (posts_db s) i (p\<lparr>image_url := Some url, updated_at := now\<rparr>)" by blast
    from titles_valid_existing [OF inv p]
    have "case title (p\<lparr>image_url := Some url, updated_at := now\<rparr>) of None \<Rightarrow> False
          | Some t \<Rightarrow> title_must_not_be_empty t" by simp
    from titles_valid_set [OF inv this] eq Upload_post_image
    show ?thesis by (simp add: titles_valid_def)
  qed
next
  case (Get_post i)
  show ?thesis
  proof (cases "dict_get (posts_db s) i")
    case None
    with inv Get_post show ?thesis by (simp add: titles_valid_def posts_db_get_post)
  next
    case (Some p)
    from titles_valid_existing [OF inv Some]
    have "case title (p\<lparr>views := views p + 1\<rparr>) of None \<Rightarrow> False
          | Some t \<Rightarrow> title_must_not_be_empty t" by simp
    from titles_valid_set [OF inv this] Some Get_post
    show ?thesis by (simp add: titles_valid_def posts_db_get_post)
  qed
next
  case (Update_post now i u)
  with other show ?thesis by blast
next
  case (Delete_post i ok)
  with inv values_dict_del [of "posts_db s" i] show ?thesis
    by (auto simp: titles_valid_def posts_db_delete_post)
next
  case (Create_comment now i msg auth)
  with inv show ?thesis by (simp add: titles_valid_def posts_db_create_comment)
next
  case (Delete_comment c)
  with inv show ?thesis by (simp add: delete_comment_def titles_valid_def)
qed (use inv in simp_all)

text \<open>
  C8. Every \<open>update_post\<close> request on an existing post overwrites exactly the fields it
  gives, keeps every field it leaves out, and refreshes \<open>updated_at\<close>. This holds whenever
  \<open>tags\<close> is left out or given as a list (\<open>update_post_partial\<close>). When \<open>tags\<close> is given
  as \<open>null\<close>, which \<open>PostUpdate\<close> admits, the loop over the tags raises before anything
  is written: the title given in the same request is not stored.
\<close>

theorem update_post_null_tags_writes_nothing:
  "update_post store1 300 1 null_tags_update = (Inl (Unhandled TypeError), store1)
   \<and> map (\<lambda>kv. title (snd kv)) (posts_db store1) = [Some ''Hello'']"
  by code_simp

text \<open>
  C9. Every stored post has a title that is not blank, at all times. Every request other
  than \<open>update_post\<close> keeps this (\<open>titles_valid_other_requests\<close>), and an \<open>update_post\<close>
  that returns leaves a valid title (\<open>update_post_success\<close>). But \<open>PostUpdate\<close> has no
  validator: \<open>update_post\<close> writes a blank title into the stored post and only then builds
  \<open>Post(**post)\<close>, whose validator rejects it. The request fails, and the store keeps the
  blank title.
\<close>

theorem update_post_stores_blank_title:
  "update_post store1 300 1 blank_title_update = (Inl (Unhandled ModelValidation), store2)
   \<and> map (\<lambda>kv. title (snd kv)) (posts_db store2) = [Some ''  '']
   \<and> \<not> title_must_not_be_empty ''  ''"
  by code_simp

subsection \<open>Filtering the posts\<close>

lemma filter_raising_pure:
  "\<forall>x\<in>set xs. f x = Inr (g x) \<Longrightarrow> filter_raising f xs = Inr (filter g xs)"
  by (induction xs) simp_all

lemma search_matches_pure:
  "title p = Some t \<Longrightarrow> content p = Some c \<Longrightarrow>
     search_matches q p = Inr (sublist q (lower t) \<or> sublist q (lower c))"
  by (simp add: search_matches_def)

lemma Posts_Inr: "Posts ps = Inr qs \<Longrightarrow> qs = ps"
  by (induction ps arbitrary: qs) (auto simp: Post_def split: sum.splits if_splits)

lemma Posts_accepted: "\<forall>p\<in>set ps. Post_accepts p \<Longrightarrow> Posts ps = Inr ps"
  by (induction ps) (simp_all add: Post_def)

lemma set_slice: "set (slice xs a b) \<subseteq> set xs"
proof -
  have "set (take n (drop m xs)) \<subseteq> set xs" for n m
    using set_take_subset [of n "drop m xs"] set_drop_subset [of m xs] by blast
  then show ?thesis by (simp add: slice_def Let_def)
qed

lemma filter_posts_pure:
  assumes str: "\<forall>p\<in>set ps. title p \<noteq> None \<and> content p \<noteq> None"
  shows "filter_posts ps tag pub search = Inr (filter (satisfies_filters tag pub search) ps)"
proof -
  let ?f1 = "case tag of None \<Rightarrow> ps
             | Some t \<Rightarrow> if t \<noteq> [] then filter (tag_matches t) ps else ps"
  let ?f2 = "case pub of None \<Rightarrow> ?f1 | Some b \<Rightarrow> filter (published_matches b) ?f1"
  have f2: "?f2 = filter (satisfies_filters tag pub None) ps"
    by (auto simp: satisfies_filters_def tag_matches_def published_matches_def
        split: option.splits intro: filter_cong)
  show ?thesis
  proof (cases "truthy search")
    case False
    then have "search = None \<or> search = Some []" by (cases search) auto
    then have "filter_posts ps tag pub search = Inr ?f2"
      by (auto simp: filter_posts_def Let_def)
    moreover have "satisfies_filters tag pub search p = satisfies_filters tag pub None p"
      if "p \<in> set ps" for p
    proof -
      from str that obtain t c where "title p = Some t" "content p = Some c" by auto
      with False show ?thesis
        by (cases search) (auto simp: satisfies_filters_def lower_def split: option.splits)
    qed
    then have "filter (satisfies_filters tag pub search) ps
        = filter (satisfies_filters tag pub None) ps"
      by (intro filter_cong) auto
    ultimately show ?thesis by (simp only: f2)
  next
    case True
    then obtain q where q: "search = Some q" "q \<noteq> []" by (cases search) auto
    let ?g = "\<lambda>p. (case title p of None \<Rightarrow> False | Some t \<Rightarrow> sublist (lower q) (lower t))
              \<or> (case content p of None \<Rightarrow> False | Some c \<Rightarrow> sublist (lower q) (lower c))"
    have "\<forall>p\<in>set ?f2. search_matches (lower q) p = Inr (?g p)"
    proof
      fix p assume "p \<in> set ?f2"
      then have "p \<in> set ps" by (simp add: f2)
      with str obtain t c where "title p = Some t" "content p = Some c" by auto
      then show "search_matches (lower q) p = Inr (?g p)" by (simp add: search_matches_pure)
    qed
    then have "filter_raising (search_matches (lower q)) ?f2 = Inr (filter ?g ?f2)"
      by (rule filter_raising_pure)
    then have "filter_posts ps tag pub search = Inr (filter ?g ?f2)"
      using q by (simp add: filter_posts_def Let_def)
    also have "filter ?g ?f2 = filter (satisfies_filters tag pub search) ps"
      unfolding f2 using q
      by (auto simp: satisfies_filters_def split: option.splits intro: filter_cong)
    finally show ?thesis .
  qed
qed

text \<open>
  C4, as stated: a post is in the result set of \<open>get_posts\<close> if and only if it satisfies
  every supplied filter, the tag filter being a case-insensitive match against one of its
  tags. With the empty string supplied as tag, post 1 of \<open>store1\<close> is returned although
  none of its tags matches the empty string: the handler tests \<open>if tag:\<close> and skips the
  filter.
\<close>

theorem empty_tag_filter_counterexample:
  "get_posts store1 1 10 (Some '''') None None
     = Inr \<lparr>items = [hello_post], total = 1, page = 1, page_size = 10, total_pages = 1\<rparr>
   \<and> lower '''' \<notin> set (map lower (tags hello_post))"
  by code_simp

text \<open>
  C4, as amended. In a store whose posts all have a title and a content, the result set of
  \<open>get_posts\<close> (the list \<open>filtered_posts\<close>, of which the response carries the length as
  \<open>total\<close> and a slice as \<open>items\<close>) holds exactly the stored posts that satisfy every
  supplied filter: a tag filter, when the tag is supplied and is not the empty string,
  matches case-insensitively against the post's tags; a published filter matches the flag
  exactly; a search filter matches when the search string occurs case-insensitively in the
  title or in the content.
\<close>

theorem filtering_is_conjunctive:
  assumes "\<forall>p\<in>set (dict_values (posts_db s)). title p \<noteq> None \<and> content p \<noteq> None"
  shows "filtered_posts s tag pub search =
       Inr (sort_newest_first
             (filter (satisfies_filters tag pub search) (dict_values (posts_db s))))
   \<and> (\<forall>fs p. filtered_posts s tag pub search = Inr fs \<longrightarrow>
         (p \<in> set fs \<longleftrightarrow>
            p \<in> set (dict_values (posts_db s)) \<and> satisfies_filters tag pub search p))
   \<and> (\<forall>fs pg sz r.
         filtered_posts s tag pub search = Inr fs \<and> get_posts s pg sz tag pub search = Inr r \<longrightarrow>
         total r = int (length fs) \<and> set (items r) \<subseteq> set fs)"
proof -
  have eq: "filtered_posts s tag pub search =
       Inr (sort_newest_first
             (filter (satisfies_filters tag pub search) (dict_values (posts_db s))))"
    by (simp add: filtered_posts_def filter_posts_pure [OF assms])
  have mem: "p \<in> set fs \<longleftrightarrow>
      p \<in> set (dict_values (posts_db s)) \<and> satisfies_filters tag pub search p"
    if "filtered_posts s tag pub search = Inr fs" for fs p
    using that by (auto simp: eq sort_newest_first_def)
  have resp: "total r = int (length fs) \<and> set (items r) \<subseteq> set fs"
    if fs: "filtered_posts s tag pub search = Inr fs"
      and r: "get_posts s pg sz tag pub search = Inr r" for fs pg sz r
  proof -
    from r fs obtain qs where qs: "Posts (slice fs ((pg - 1) * sz) ((pg - 1) * sz + sz)) = Inr qs"
      and rr: "r = \<lparr>items = qs, total = int (length fs), page = pg, page_size = sz,
          total_pages = calculate_pagination (int (length fs)) pg sz\<rparr>"
      by (auto simp: get_posts_def Let_def split: if_splits sum.splits)
    from Posts_Inr [OF qs] set_slice [of fs] rr show ?thesis by auto
  qed
  from eq mem resp show ?thesis by blast
qed

theorem filtering_is_conjunctive_witness:
  "filtered_posts store3 (Some ''GO'') (Some False) (Some ''FIRST'') = Inr [hello_post]
   \<and> filtered_posts store3 (Some '''') None None
       = Inr (sort_newest_first (dict_values (posts_db store3)))"
proof -
  have h: "\<forall>p\<in>set (dict_values (posts_db store3)). title p \<noteq> None \<and> content p \<noteq> None"
    by code_simp
  have a: "sort_newest_first
             (filter (satisfies_filters (Some ''GO'') (Some False) (Some ''FIRST''))
               (dict_values (posts_db store3))) = [hello_post]" by code_simp
  have b: "filter (satisfies_filters (Some '''') None None) (dict_values (posts_db store3))
      = dict_values (posts_db store3)" by code_simp
  from filtering_is_conjunctive [OF h, of "Some ''GO''" "Some False"] a
  have "filtered_posts store3 (Some ''GO'') (Some False) (Some ''FIRST'') = Inr [hello_post]"
    by simp
  moreover from filtering_is_conjunctive [OF h, of "Some ''''" None] b
  have "filtered_posts store3 (Some '''') None None
       = Inr (sort_newest_first (dict_values (posts_db store3)))" by simp
  ultimately show ?thesis by blast
qed

subsection \<open>Pagination\<close>

lemma calculate_pagination_bounds:
  assumes "1 \<le> sz"
  shows "tot \<le> calculate_pagination tot pg sz * sz"
    and "(calculate_pagination tot pg sz - 1) * sz < tot"
proof -
  define q where "q = (tot + sz - 1) div sz"
  define r where "r = (tot + sz - 1) mod sz"
  have sz: "0 < sz" using assms by simp
  have dm: "tot + sz - 1 = q * sz + r" by (simp add: q_def r_def)
  have lo: "0 \<le> r" and hi: "r < sz" using sz by (simp_all add: r_def)
  have cp: "calculate_pagination tot pg sz = q" by (simp add: calculate_pagination_def q_def)
  from dm hi show "tot \<le> calculate_pagination tot pg sz * sz"
    unfolding cp by linarith
  have "(q - 1) * sz = q * sz - sz" by (simp add: algebra_simps)
  with dm lo show "(calculate_pagination tot pg sz - 1) * sz < tot"
    unfolding cp by linarith
qed

lemma calculate_pagination_ceiling:
  assumes "1 \<le> sz"
  shows "calculate_pagination tot pg sz = \<lceil>real_of_int tot / real_of_int sz\<rceil>"
proof -
  let ?q = "calculate_pagination tot pg sz"
  have sz: "0 < real_of_int sz" using assms by simp
  from calculate_pagination_bounds [OF assms, of tot pg]
  have a: "real_of_int tot \<le> real_of_int (?q * sz)"
    and b: "real_of_int ((?q - 1) * sz) < real_of_int tot" by linarith+
  from a sz have le: "real_of_int tot / real_of_int sz \<le> real_of_int ?q"
    by (simp add: field_simps)
  from b sz have gt: "real_of_int ?q - 1 < real_of_int tot / real_of_int sz"
    by (simp add: field_simps)
  from gt le have "\<lceil>real_of_int tot / real_of_int sz\<rceil> = ?q" by (rule ceiling_unique)
  then show ?thesis by simp
qed

lemma slice_page:
  assumes "1 \<le> pg" and "1 \<le> sz"
  shows "slice xs ((pg - 1) * sz) ((pg - 1) * sz + sz)
           = take (nat sz) (drop (nat ((pg - 1) * sz)) xs)"
proof -
  let ?a = "(pg - 1) * sz"
  from assms have a0: "0 \<le> ?a" by simp
  with assms have b0: "0 \<le> ?a + sz" by linarith
  have na: "nat (?a + sz) = nat ?a + nat sz" using a0 assms by (simp add: nat_add_distrib)
  show ?thesis
  proof (cases "nat ?a \<le> length xs")
    case True
    have "take (min (nat ?a + nat sz) (length xs) - nat ?a) (drop (nat ?a) xs)
        = take (nat sz) (drop (nat ?a) xs)"
      using True by (simp add: min_def)
    with a0 b0 True show ?thesis
      by (simp add: slice_def clamp_index_def Let_def na del: nat_add_distrib)
  next
    case False
    with a0 b0 show ?thesis by (simp add: slice_def clamp_index_def Let_def)
  qed
qed

lemma Post_accepts_strings: "Post_accepts p \<Longrightarrow> title p \<noteq> None \<and> content p \<noteq> None"
  by (auto simp: Post_accepts_def split: option.splits)

lemma get_posts_page:
  assumes valid: "\<forall>p\<in>set (dict_values (posts_db s)). Post_accepts p"
    and pg: "1 \<le> pg" and sz: "1 \<le> sz" "sz \<le> 100"
  shows "get_posts s pg sz tag pub search =
     Inr \<lparr>items = take (nat sz) (drop (nat ((pg - 1) * sz))
             (sort_newest_first
               (filter (satisfies_filters tag pub search) (dict_values (posts_db s))))),
          total = int (length (filter (satisfies_filters tag pub search)
                                 (dict_values (posts_db s)))),
          page = pg, page_size = sz,
          total_pages = \<lceil>real (length (filter (satisfies_filters tag pub search)
                                 (dict_values (posts_db s)))) / real_of_int sz\<rceil>\<rparr>"
proof -
  let ?F = "filter (satisfies_filters tag pub search) (dict_values (posts_db s))"
  let ?L = "sort_newest_first ?F"
  from valid have "\<forall>p\<in>set (dict_values (posts_db s)). title p \<noteq> None \<and> content p \<noteq> None"
    by (blast dest: Post_accepts_strings)
  then have fp: "filtered_posts s tag pub search = Inr ?L"
    by (simp add: filtered_posts_def filter_posts_pure)
  have len: "length ?L = length ?F" by (simp add: sort_newest_first_def)
  have "set (take (nat sz) (drop (nat ((pg - 1) * sz)) ?L)) \<subseteq> set ?L"
    using set_take_subset [of "nat sz" "drop (nat ((pg - 1) * sz)) ?L"]
      set_drop_subset [of "nat ((pg - 1) * sz)" ?L] by blast
  also have "set ?L \<subseteq> set (dict_values (posts_db s))"
    by (auto simp: sort_newest_first_def)
  finally have "\<forall>p\<in>set (take (nat sz) (drop (nat ((pg - 1) * sz)) ?L)). Post_accepts p"
    using valid by blast
  then have ps: "Posts (take (nat sz) (drop (nat ((pg - 1) * sz)) ?L))
      = Inr (take (nat sz) (drop (nat ((pg - 1) * sz)) ?L))"
    by (rule Posts_accepted)
  have tp: "calculate_pagination (int (length ?F)) pg sz
      = \<lceil>real (length ?F) / real_of_int sz\<rceil>"
    using calculate_pagination_ceiling [OF sz(1), of "int (length ?F)" pg] by simp
  from pg sz show ?thesis
    by (simp add: get_posts_def fp Let_def slice_page ps len tp)
qed

lemma pages_concat:
  "concat (map (\<lambda>k. take S (drop (k * S) xs)) [0..<n]) = take (n * S) xs"
proof (induction n)
  case 0
  show ?case by simp
next
  case (Suc n)
  have "Suc n * S = n * S + S" by simp
  then have "take (Suc n * S) xs = take (n * S) xs @ take S (drop (n * S) xs)"
    by (simp only: take_add)
  with Suc show ?case by simp
qed

lemma upto_from_one: "[1..int n] = map (\<lambda>k. int k + 1) [0..<n]"
proof (induction n)
  case 0
  show ?case by simp
next
  case (Suc n)
  have "[1..int (Suc n)] = [1..int n] @ [int n + 1]"
    using upto_rec2 [of 1 "int n + 1"] by (simp add: add.commute)
  with Suc show ?case by simp
qed

lemma get_posts_pagination:
  fixes s :: store and sz :: int
    and tag :: "string option" and pub :: "bool option" and search :: "string option"
  assumes valid: "\<forall>p\<in>set (dict_values (posts_db s)). Post_accepts p"
    and sz: "1 \<le> sz" "sz \<le> 100"
  defines "F \<equiv> filter (satisfies_filters tag pub search) (dict_values (posts_db s))"
  defines "L \<equiv> sort_newest_first F"
  defines "tp \<equiv> \<lceil>real (length F) / real_of_int sz\<rceil>"
  shows "(\<forall>pg. 1 \<le> pg \<longrightarrow>
           get_posts s pg sz tag pub search =
             Inr \<lparr>items = take (nat sz) (drop (nat ((pg - 1) * sz)) L),
                  total = int (length F), page = pg, page_size = sz, total_pages = tp\<rparr>)
   \<and> mset L = mset F
   \<and> concat (map (\<lambda>pg. items (projr (get_posts s pg sz tag pub search))) [1..tp]) = L
   \<and> (\<forall>pg. 1 \<le> pg \<and> tp < pg \<longrightarrow>
           get_posts s pg sz tag pub search =
             Inr \<lparr>items = [], total = int (length F), page = pg, page_size = sz,
                  total_pages = tp\<rparr>)"
proof -
  have page: "get_posts s pg sz tag pub search =
             Inr \<lparr>items = take (nat sz) (drop (nat ((pg - 1) * sz)) L),
                  total = int (length F), page = pg, page_size = sz, total_pages = tp\<rparr>"
    if "1 \<le> pg" for pg
    unfolding F_def L_def tp_def using valid that sz by (rule get_posts_page)
  have perm: "mset L = mset F" by (simp add: L_def sort_newest_first_def)
  have len: "length L = length F" by (simp add: L_def sort_newest_first_def)
  have tp_cp: "tp = calculate_pagination (int (length F)) 1 sz"
    unfolding tp_def using calculate_pagination_ceiling [OF sz(1), of "int (length F)" 1] by simp
  have cover: "int (length L) \<le> tp * sz"
    using calculate_pagination_bounds(1) [OF sz(1), of "int (length F)" 1]
    by (simp add: tp_cp len)
  have "0 \<le> real (length F) / real_of_int sz" using sz by simp
  then have "- 1 < real (length F) / real_of_int sz" by linarith
  then have tp0: "0 \<le> tp" by (simp add: tp_def)
  have all: "concat (map (\<lambda>pg. items (projr (get_posts s pg sz tag pub search))) [1..tp]) = L"
  proof -
    have "[1..tp] = map (\<lambda>k. int k + 1) [0..<nat tp]"
      using upto_from_one [of "nat tp"] tp0 by simp
    then have "map (\<lambda>pg. items (projr (get_posts s pg sz tag pub search))) [1..tp]
        = map (\<lambda>k. items (projr (get_posts s (int k + 1) sz tag pub search))) [0..<nat tp]"
      by (simp add: comp_def)
    also have "\<dots> = map (\<lambda>k. take (nat sz) (drop (k * nat sz) L)) [0..<nat tp]"
    proof (intro map_cong refl)
      fix k
      have "nat (int k * sz) = k * nat sz" using sz by (simp add: nat_mult_distrib)
      then show "items (projr (get_posts s (int k + 1) sz tag pub search))
          = take (nat sz) (drop (k * nat sz) L)"
        by (simp add: page)
    qed
    finally have "concat (map (\<lambda>pg. items (projr (get_posts s pg sz tag pub search))) [1..tp])
        = take (nat tp * nat sz) L"
      by (simp only: pages_concat)
    moreover have "length L \<le> nat tp * nat sz"
    proof -
      have "int (nat tp * nat sz) = tp * sz" using tp0 sz by simp
      with cover show ?thesis by linarith
    qed
    ultimately show ?thesis by simp
  qed
  have beyond: "get_posts s pg sz tag pub search =
             Inr \<lparr>items = [], total = int (length F), page = pg, page_size = sz,
                  total_pages = tp\<rparr>"
    if "1 \<le> pg \<and> tp < pg" for pg
  proof -
    from that have "tp \<le> pg - 1" by simp
    with sz have "tp * sz \<le> (pg - 1) * sz" by (intro mult_right_mono) simp_all
    with cover have "int (length L) \<le> (pg - 1) * sz" by linarith
    then have "length L \<le> nat ((pg - 1) * sz)" by linarith
    then have "drop (nat ((pg - 1) * sz)) L = []" by simp
    with page [of pg] that show ?thesis by simp
  qed
  from page perm all beyond show ?thesis by blast
qed

text \<open>
  C1. For every state of the store, page \<open>p\<close> of \<open>get_posts\<close> returns the records at
  positions \<open>[(p-1)*S, p*S)\<close> of the filtered, sorted sequence, with \<open>total\<close> the
  number of filtered posts and \<open>total_pages\<close> its quotient by the page size, rounded up;
  the pages together are the filtered sequence, and a page beyond the last is empty. All of
  this holds in a store whose posts pass the \<open>Post\<close> model (\<open>get_posts_pagination\<close>). It
  does not hold in every state: in \<open>store2\<close> there is one post, so page 1 should return it
  with \<open>total = 1\<close>; the handler raises instead, because the post's title is blank and
  \<open>Post(**p)\<close> rejects it.
\<close>

theorem get_posts_after_blank_title:
  "dict_keys (posts_db store2) = [1]
   \<and> get_posts store2 1 10 None None None = Inl (Unhandled ModelValidation)"
  by code_simp

subsection \<open>Deleting a post\<close>

lemma foldl_dict_del: "foldl dict_del d ks = filter (\<lambda>kv. fst kv \<notin> set ks) d"
proof (induction ks arbitrary: d)
  case Nil
  then show ?case by simp
next
  case (Cons k ks)
  have "foldl dict_del d (k # ks) = foldl dict_del (dict_del d k) ks" by simp
  also have "\<dots> = filter (\<lambda>kv. fst kv \<notin> set ks) (dict_del d k)" by (rule Cons.IH)
  also have "\<dots> = filter (\<lambda>kv. fst kv \<notin> set ks) (filter (\<lambda>kv. fst kv \<noteq> k) d)"
    by (simp only: dict_del_filter)
  also have "\<dots> = filter (\<lambda>kv. fst kv \<notin> set (k # ks)) d"
    by (auto intro: filter_cong)
  finally show ?case .
qed

lemma dict_get_filter:
  assumes "distinct (dict_keys d)"
  shows "dict_get (filter P d) k =
     (case dict_get d k of None \<Rightarrow> None | Some v \<Rightarrow> if P (k, v) then Some v else None)"
  using assms
proof (induction d)
  case Nil
  then show ?case by simp
next
  case (Cons a d)
  obtain k' v' where a: "a = (k', v')" by (cases a)
  from Cons.prems a have notin: "k' \<notin> set (dict_keys d)" and dist: "distinct (dict_keys d)"
    by (simp_all add: dict_keys_def)
  have ih: "dict_get (filter P d) k =
     (case dict_get d k of None \<Rightarrow> None | Some v \<Rightarrow> if P (k, v) then Some v else None)"
    using dist by (rule Cons.IH)
  show ?case
  proof (cases "k' = k")
    case True
    with notin have "dict_get d k = None" by (simp add: dict_get_None_iff)
    with ih True a show ?thesis by simp
  next
    case False
    with ih a show ?thesis by simp
  qed
qed

lemma keys_of_filter:
  assumes "distinct (dict_keys d)"
  shows "k \<in> set (dict_keys (filter P d)) \<longleftrightarrow> (\<exists>v. dict_get d k = Some v \<and> P (k, v))"
proof -
  have "k \<in> set (dict_keys (filter P d)) \<longleftrightarrow> dict_get (filter P d) k \<noteq> None"
    by (simp add: dict_get_None_iff)
  also have "\<dots> \<longleftrightarrow> (\<exists>v. dict_get d k = Some v \<and> P (k, v))"
    by (simp add: dict_get_filter [OF assms] split: option.splits)
  finally show ?thesis .
qed

lemma cascade_filter:
  assumes "distinct (dict_keys d)"
  shows "foldl dict_del d (map fst (filter (\<lambda>kc. post_id (snd kc) = i) d))
           = filter (\<lambda>kc. post_id (snd kc) \<noteq> i) d"
proof -
  have "fst kc \<notin> set (map fst (filter (\<lambda>kc. post_id (snd kc) = i) d)) \<longleftrightarrow> post_id (snd kc) \<noteq> i"
    if "kc \<in> set d" for kc
  proof -
    obtain k c where kc: "kc = (k, c)" by (cases kc)
    from that kc assms have g: "dict_get d k = Some c" by (simp add: dict_get_distinct)
    have "k \<in> set (dict_keys (filter (\<lambda>kc. post_id (snd kc) = i) d)) \<longleftrightarrow> post_id c = i"
      by (simp add: keys_of_filter [OF assms] g)
    with kc show ?thesis by (simp add: dict_keys_def)
  qed
  then show ?thesis by (simp add: foldl_dict_del cong: filter_cong)
qed

lemma distinct_dict_set: "distinct (dict_keys d) \<Longrightarrow> distinct (dict_keys (dict_set d k v))"
proof (induction d)
  case Nil
  then show ?case by (simp add: dict_keys_def)
next
  case (Cons a d)
  obtain k' v' where a: "a = (k', v')" by (cases a)
  have sub: "set (dict_keys (dict_set d k v)) \<subseteq> insert k (set (dict_keys d))"
    using set_dict_set [of d k v] by (auto simp: dict_keys_def)
  show ?case
  proof (cases "k' = k")
    case True
    with Cons.prems a show ?thesis by (simp add: dict_keys_def)
  next
    case False
    from Cons.prems a have "k' \<notin> set (dict_keys d)" and "distinct (dict_keys d)"
      by (simp_all add: dict_keys_def)
    with Cons.IH sub False have "k' \<notin> set (dict_keys (dict_set d k v))"
      and "distinct (dict_keys (dict_set d k v))" by auto
    with a False show ?thesis by (simp add: dict_keys_def)
  qed
qed

lemma distinct_foldl_dict_del:
  "distinct (dict_keys d) \<Longrightarrow> distinct (dict_keys (foldl dict_del d ks))"
  by (simp add: foldl_dict_del dict_keys_def distinct_map_filter)

lemma comments_db_handle:
  "comments_db (handle s r) = comments_db s
   \<or> (\<exists>k v. comments_db (handle s r) = dict_set (comments_db s) k v)
   \<or> (\<exists>ks. comments_db (handle s r) = foldl dict_del (comments_db s) ks)"
proof (cases r)
  case (Create_post now body auth)
  then show ?thesis by (simp add: create_post_def Let_def)
next
  case (Upload_post_image now i ct fn uuid w)
  then show ?thesis
    by (simp add: upload_post_image_def Let_def
        split: sum.splits option.splits list.splits file_write.splits)
next
  case (Get_post i)
  then show ?thesis
    by (simp add: get_post_def increment_views_def Let_def split: sum.splits option.splits)
next
  case (Update_post now i u)
  then show ?thesis
    by (simp add: update_post_def Let_def split: sum.splits option.splits field.splits)
next
  case (Delete_post i ok)
  then show ?thesis by (cases rule: delete_post_cases [of s i ok]) auto
next
  case (Create_comment now i msg auth)
  then show ?thesis
    by (auto simp: create_comment_def Let_def split: sum.splits)
next
  case (Delete_comment c)
  have "dict_del (comments_db s) c = foldl dict_del (comments_db s) [c]" by simp
  then have "\<exists>ks. dict_del (comments_db s) c = foldl dict_del (comments_db s) ks" by blast
  with Delete_comment show ?thesis by (simp add: delete_comment_def)
qed simp_all

lemma distinct_comments_handle:
  assumes "distinct (dict_keys (comments_db s))"
  shows "distinct (dict_keys (comments_db (handle s r)))"
  using comments_db_handle [of s r] assms
  by (auto simp: distinct_dict_set distinct_foldl_dict_del)

lemma distinct_comments_run:
  "distinct (dict_keys (comments_db s)) \<Longrightarrow> distinct (dict_keys (comments_db (run s rs)))"
  unfolding run_def by (induction rs arbitrary: s) (simp_all add: distinct_comments_handle)

lemma distinct_comments_reachable: "distinct (dict_keys (comments_db (run init_store rs)))"
  by (rule distinct_comments_run) (simp add: init_store_def dict_keys_def)

text \<open>
  Whenever \<open>delete_post\<close> returns, the post is gone together with exactly its comments.
  The hypothesis on the keys says that \<open>comments_db\<close> is a dictionary, which
  \<open>distinct_comments_reachable\<close> shows of every store the handlers can produce.
\<close>

lemma delete_post_cascade_when_returns:
  assumes "distinct (dict_keys (comments_db s))" and ret: "fst (delete_post s i ok) = Inr ()"
  shows "dict_get (posts_db (snd (delete_post s i ok))) i = None
   \<and> (\<forall>j. j \<noteq> i \<longrightarrow>
         dict_get (posts_db (snd (delete_post s i ok))) j = dict_get (posts_db s) j)
   \<and> comments_db (snd (delete_post s i ok))
       = filter (\<lambda>kc. post_id (snd kc) \<noteq> i) (comments_db s)
   \<and> get_comments (snd (delete_post s i ok)) i = Inl NotFoundError
   \<and> (\<forall>k c. dict_get (comments_db s) k = Some c \<and> post_id c = i \<longrightarrow>
         delete_comment (snd (delete_post s i ok)) k
           = (Inl NotFoundError, snd (delete_post s i ok)))
   \<and> (\<forall>k c. dict_get (comments_db s) k = Some c \<and> post_id c \<noteq> i \<longrightarrow>
         dict_get (comments_db (snd (delete_post s i ok))) k = Some c)"
proof (intro conjI)
  let ?s' = "snd (delete_post s i ok)"
  have ps: "posts_db ?s' = dict_del (posts_db s) i"
    using ret by (simp add: posts_db_delete_post)
  have cs: "comments_db ?s' = filter (\<lambda>kc. post_id (snd kc) \<noteq> i) (comments_db s)"
    using ret by (cases rule: delete_post_cases [of s i ok]) (simp_all add: cascade_filter [OF assms(1)])
  show gone: "dict_get (posts_db ?s') i = None" by (simp add: ps dict_get_del)
  show "\<forall>j. j \<noteq> i \<longrightarrow> dict_get (posts_db ?s') j = dict_get (posts_db s) j"
    by (simp add: ps dict_get_del)
  show "comments_db ?s' = filter (\<lambda>kc. post_id (snd kc) \<noteq> i) (comments_db s)" by (rule cs)
  show "get_comments ?s' i = Inl NotFoundError"
    using gone by (simp add: get_comments_def get_post_or_404_simps)
  show "\<forall>k c. dict_get (comments_db s) k = Some c \<and> post_id c = i \<longrightarrow>
          delete_comment ?s' k = (Inl NotFoundError, ?s')"
  proof (intro allI impI)
    fix k c
    assume kc: "dict_get (comments_db s) k = Some c \<and> post_id c = i"
    then have "k \<notin> set (dict_keys (comments_db ?s'))"
      by (simp add: cs keys_of_filter [OF assms(1)])
    then show "delete_comment ?s' k = (Inl NotFoundError, ?s')"
      by (simp add: delete_comment_def)
  qed
  show "\<forall>k c. dict_get (comments_db s) k = Some c \<and> post_id c \<noteq> i \<longrightarrow>
          dict_get (comments_db ?s') k = Some c"
    by (simp add: cs dict_get_filter [OF assms(1)])
qed

text \<open>
  It returns on an existing post exactly when the removal of the image does not raise; a
  post without an image, or whose image file is no longer there, is always deleted.
\<close>

lemma delete_post_returns_iff:
  "fst (delete_post s i ok) = Inr () \<longleftrightarrow>
     (\<exists>p s1. dict_get (posts_db s) i = Some p \<and> unlink_image s p ok = Inr s1)"
proof (cases "dict_get (posts_db s) i")
  case None
  then show ?thesis by (simp add: delete_post_missing)
next
  case (Some p)
  show ?thesis
  proof (cases "unlink_image s p ok")
    case (Inl e)
    with Some show ?thesis by (simp add: delete_post_raises)
  next
    case (Inr s1)
    with Some delete_post_returns(1) [OF Some Inr] show ?thesis by simp
  qed
qed

lemma delete_post_without_image:
  "dict_get (posts_db s) i = Some p \<Longrightarrow> image_url p = None \<Longrightarrow>
     fst (delete_post s i ok) = Inr ()"
  by (simp add: delete_post_returns_iff unlink_image_def)

text \<open>
  C5. \<open>delete_post\<close> on an unknown id fails with \<open>NotFoundError\<close>
  (\<open>delete_post_missing\<close>); on an existing id it removes the post and every comment whose
  \<open>post_id\<close> is that id, after which \<open>get_comments\<close> on the id and \<open>delete_comment\<close> on each
  removed comment fail with \<open>NotFoundError\<close>, and the comments of other posts are as they
  were. All of this holds whenever \<open>delete_post\<close> returns (\<open>delete_post_cascade_when_returns\<close>).
  It does not return on every existing id. In \<open>slash_store\<close> post 1 has a comment and an
  image that was uploaded under the file name \<open>a./\<close>: the extension is a slash, the file is
  written under the uuid and a dot, and the stored url ends in the slash. For
  \<open>delete_post\<close> nothing follows the last slash of the url, \<open>image_path\<close> is the upload
  directory, and \<open>unlink\<close> raises before a comment or the post is deleted.
\<close>

theorem delete_post_after_slash_upload:
  "dict_keys (posts_db slash_store) = [1]
   \<and> dict_keys (comments_db slash_store) = [1]
   \<and> uploads slash_store = {''123e4567-e89b-42d3-a456-426614174000.''}
   \<and> map_option image_url (dict_get (posts_db slash_store) 1)
       = Some (Some ''/uploads/123e4567-e89b-42d3-a456-426614174000./'')
   \<and> delete_post slash_store 1 True = (Inl (Unhandled OSError), slash_store)"
  by code_simp

subsection \<open>The tag registry\<close>

lemma register_tags_eq: "register_tags db ts = db \<union> lower ` set ts"
  unfolding register_tags_def by (induction ts arbitrary: db) auto

lemma tags_db_handle:
  "tags_db (handle s r) = tags_db s \<or> (\<exists>ts. tags_db (handle s r) = register_tags (tags_db s) ts)"
proof (cases r)
  case (Create_post now body auth)
  then show ?thesis by (auto simp: create_post_def Let_def)
next
  case (Upload_post_image now i ct fn uuid w)
  then show ?thesis
    by (simp add: upload_post_image_def Let_def
        split: sum.splits option.splits list.splits file_write.splits)
next
  case (Get_post i)
  then show ?thesis
    by (simp add: get_post_def increment_views_def Let_def split: sum.splits option.splits)
next
  case (Update_post now i u)
  then show ?thesis
    by (auto simp: update_post_def Let_def split: sum.splits option.splits field.splits)
next
  case (Delete_post i ok)
  then show ?thesis by (simp add: tags_db_delete_post)
next
  case (Create_comment now i msg auth)
  then show ?thesis by (simp add: create_comment_def Let_def split: sum.splits)
next
  case (Delete_comment c)
  then show ?thesis by (simp add: delete_comment_def)
qed simp_all

lemma tags_db_mono_handle: "tags_db s \<subseteq> tags_db (handle s r)"
  using tags_db_handle [of s r] by (auto simp: register_tags_eq)

lemma finite_tags_handle: "finite (tags_db s) \<Longrightarrow> finite (tags_db (handle s r))"
  using tags_db_handle [of s r] by (auto simp: register_tags_eq)

lemma registered_after_set:
  assumes inv: "tags_registered s"
    and sub: "tags_db s \<subseteq> D"
    and new: "\<forall>t\<in>set (tags q). lower t \<in> D"
  shows "\<forall>p\<in>set (dict_values (dict_set (posts_db s) k q)). \<forall>t\<in>set (tags p). lower t \<in> D"
proof (intro ballI)
  fix p t
  assume p: "p \<in> set (dict_values (dict_set (posts_db s) k q))" and t: "t \<in> set (tags p)"
  from p values_dict_set [of "posts_db s" k q]
  have "p = q \<or> p \<in> set (dict_values (posts_db s))" by auto
  then show "lower t \<in> D"
  proof
    assume "p = q"
    with new t show ?thesis by simp
  next
    assume "p \<in> set (dict_values (posts_db s))"
    with inv t have "lower t \<in> tags_db s" by (simp add: tags_registered_def)
    with sub show ?thesis by blast
  qed
qed

lemma registered_existing:
  "tags_registered s \<Longrightarrow> dict_get (posts_db s) i = Some p \<Longrightarrow> \<forall>t\<in>set (tags p). lower t \<in> tags_db s"
  by (auto simp: tags_registered_def dest: dict_get_value)

lemma tags_registered_handle:
  assumes inv: "tags_registered s"
  shows "tags_registered (handle s r)"
proof (cases r)
  case (Create_post now body auth)
  show ?thesis
  proof (cases "title_must_not_be_empty (new_title body) \<and> 3 \<le> length auth")
    case True
    then have st: "snd (create_post s now body auth) =
     s\<lparr>post_counter := post_counter s + 1,
       tags_db := register_tags (tags_db s) (new_tags body),
       posts_db := dict_set (posts_db s) (post_counter s + 1)
         \<lparr>pid = post_counter s + 1, author = auth, image_url = None, views = 0,
          created_at = now, updated_at = now, title = Some (new_title body),
          content = Some (new_content body), tags = new_tags body,
          published = Some (new_published body)\<rparr>\<rparr>"
      by (simp add: create_post_accepted)
    let ?D = "register_tags (tags_db s) (new_tags body)"
    let ?q = "\<lparr>pid = post_counter s + 1, author = auth, image_url = None, views = 0,
          created_at = now, updated_at = now, title = Some (new_title body),
          content = Some (new_content body), tags = new_tags body,
          published = Some (new_published body)\<rparr>"
    have sub: "tags_db s \<subseteq> ?D" by (auto simp: register_tags_eq)
    have new: "\<forall>t\<in>set (tags ?q). lower t \<in> ?D" by (simp add: register_tags_eq)
    from registered_after_set [OF inv sub new, of "post_counter s + 1"]
    show ?thesis
      unfolding Create_post handle.simps st tags_registered_def by simp
  next
    case False
    then have "create_post s now body auth = (Inl ValidationError, s)"
      by (intro create_post_rejected) auto
    with Create_post inv show ?thesis by simp
  qed
next
  case (Upload_post_image now i ct fn uuid w)
  have db: "tags_db (handle s r) = tags_db s"
    unfolding Upload_post_image
    by (simp add: upload_post_image_def Let_def
        split: sum.splits option.splits list.splits file_write.splits)
  from posts_db_upload_post_image [of s now i ct fn uuid w]
  show ?thesis
  proof
    assume "posts_db (snd (upload_post_image s now i ct fn uuid w)) = posts_db s"
    with inv db Upload_post_image show ?thesis by (simp add: tags_registered_def)
  next
    assume "\<exists>p url. dict_get (posts_db s) i = Some p \<and>
        posts_db (snd (upload_post_image s now i ct fn uuid w)) =
          dict_set (posts_db s) i (p\<lparr>image_url := Some url, updated_at := now\<rparr>)"
    then obtain p url where p: "dict_get (posts_db s) i = Some p"
      and eq: "posts_db (snd (upload_post_image s now i ct fn uuid w)) =
          dict_set (posts_db s) i (p\<lparr>image_url := Some url, updated_at := now\<rparr>)" by blast
    from registered_existing [OF inv p]
    have "\<forall>t\<in>set (tags (p\<lparr>image_url := Some url, updated_at := now\<rparr>)). lower t \<in> tags_db s"
      by simp
    from registered_after_set [OF inv subset_refl this]
    show ?thesis using db eq Upload_post_image by (simp add: tags_registered_def)
  qed
next
  case (Get_post i)
  have db: "tags_db (handle s r) = tags_db s"
    unfolding Get_post
    by (simp add: get_post_def increment_views_def Let_def split: sum.splits option.splits)
  show ?thesis
  proof (cases "dict_get (posts_db s) i")
    case None
    with inv db Get_post show ?thesis
      by (simp add: tags_registered_def posts_db_get_post)
  next
    case (Some p)
    from registered_existing [OF inv Some]
    have "\<forall>t\<in>set (tags (p\<lparr>views := views p + 1\<rparr>)). lower t \<in> tags_db s" by simp
    from registered_after_set [OF inv subset_refl this]
    show ?thesis using db Some Get_post by (simp add: tags_registered_def posts_db_get_post)
  qed
next
  case (Update_post now i u)
  show ?thesis
  proof (cases "dict_get (posts_db s) i")
    case None
    with inv Update_post show ?thesis by (simp add: update_post_missing)
  next
    case (Some p)
    show ?thesis
    proof (cases "upd_tags u = Given None")
      case True
      with inv Some Update_post show ?thesis by (simp add: update_post_null_tags)
    next
      case False
      let ?D = "case upd_tags u of Unset \<Rightarrow> tags_db s | Given None \<Rightarrow> tags_db s
                    | Given (Some ts) \<Rightarrow> register_tags (tags_db s) ts"
      let ?q = "(apply_update p u)\<lparr>updated_at := now\<rparr>"
      have sub: "tags_db s \<subseteq> ?D"
        by (auto simp: register_tags_eq split: field.splits option.splits)
      have new: "\<forall>t\<in>set (tags ?q). lower t \<in> ?D"
        using registered_existing [OF inv Some]
        by (auto simp: apply_update_fields register_tags_eq split: field.splits option.splits)
      from registered_after_set [OF inv sub new]
      show ?thesis using Update_post
        by (simp add: update_post_existing [OF Some False] tags_registered_def)
    qed
  qed
next
  case (Delete_post i ok)
  have db: "tags_db (handle s r) = tags_db s"
    unfolding Delete_post by (simp add: tags_db_delete_post)
  show ?thesis
    using inv db values_dict_del [of "posts_db s" i] Delete_post
    by (auto simp: tags_registered_def posts_db_delete_post)
next
  case (Create_comment now i msg auth)
  with inv show ?thesis
    by (simp add: create_comment_def tags_registered_def Let_def split: sum.splits)
next
  case (Delete_comment c)
  with inv show ?thesis by (simp add: delete_comment_def tags_registered_def)
qed (use inv in simp_all)

lemma tags_registered_run: "tags_registered s \<Longrightarrow> tags_registered (run s rs)"
  unfolding run_def by (induction rs arbitrary: s) (simp_all add: tags_registered_handle)

lemma tags_db_mono_run: "tags_db s \<subseteq> tags_db (run s rs)"
  unfolding run_def
proof (induction rs arbitrary: s)
  case Nil
  show ?case by simp
next
  case (Cons r rs)
  have "tags_db s \<subseteq> tags_db (handle s r)" by (rule tags_db_mono_handle)
  also have "\<dots> \<subseteq> tags_db (foldl handle (handle s r) rs)" by (rule Cons.IH)
  finally show ?case by simp
qed

lemma finite_tags_run: "finite (tags_db s) \<Longrightarrow> finite (tags_db (run s rs))"
  unfolding run_def by (induction rs arbitrary: s) (simp_all add: finite_tags_handle)

text \<open>
  C6. The lowercase form of every tag of every stored post is in the registry: this holds
  of the empty store and is kept by every request, whether its handler returns or raises.
  The registry never shrinks, under one request or any sequence of them, so a tag once
  listed by \<open>get_tags\<close> stays listed, also after the posts that carried it are deleted.
  \<open>create_post\<close> and \<open>update_post\<close> with tags add the lowercase form of each given tag.
\<close>

theorem tag_registry_invariant:
  "tags_registered init_store
   \<and> (tags_registered s \<longrightarrow> tags_registered (handle s r))
   \<and> (tags_registered s \<longrightarrow> tags_registered (run s rs))
   \<and> tags_db s \<subseteq> tags_db (handle s r)
   \<and> tags_db s \<subseteq> tags_db (run s rs)
   \<and> (finite (tags_db s) \<longrightarrow> set (get_tags s) \<subseteq> set (get_tags (run s rs)))
   \<and> (title_must_not_be_empty (new_title body) \<and> 3 \<le> length auth \<longrightarrow>
        tags_db (snd (create_post s now body auth)) = tags_db s \<union> lower ` set (new_tags body))
   \<and> (dict_get (posts_db s) i \<noteq> None \<and> upd_tags u = Given (Some ts) \<longrightarrow>
        tags_db (snd (update_post s now i u)) = tags_db s \<union> lower ` set ts)"
proof (intro conjI impI)
  show "tags_registered init_store"
    by (simp add: tags_registered_def init_store_def dict_values_def)
  show "tags_registered (handle s r)" if "tags_registered s"
    using that by (rule tags_registered_handle)
  show "tags_registered (run s rs)" if "tags_registered s"
    using that by (rule tags_registered_run)
  show "tags_db s \<subseteq> tags_db (handle s r)" by (rule tags_db_mono_handle)
  show "tags_db s \<subseteq> tags_db (run s rs)" by (rule tags_db_mono_run)
  show "set (get_tags s) \<subseteq> set (get_tags (run s rs))" if "finite (tags_db s)"
    using that finite_tags_run [OF that, of rs] tags_db_mono_run [of s rs]
    by (simp add: get_tags_def)
  show "tags_db (snd (create_post s now body auth)) = tags_db s \<union> lower ` set (new_tags body)"
    if "title_must_not_be_empty (new_title body) \<and> 3 \<le> length auth"
    using that by (simp add: create_post_accepted register_tags_eq)
  show "tags_db (snd (update_post s now i u)) = tags_db s \<union> lower ` set ts"
    if "dict_get (posts_db s) i \<noteq> None \<and> upd_tags u = Given (Some ts)"
  proof -
    from that obtain p where p: "dict_get (posts_db s) i = Some p" by blast
    from that have "upd_tags u \<noteq> Given None" by simp
    from update_post_existing [OF p this] that show ?thesis
      by (simp add: register_tags_eq)
  qed
qed

theorem tag_registry_invariant_witness:
  "''go'' \<in> tags_db (run store3 [Delete_post 1 True, Delete_post 2 True])
   \<and> ''go'' \<in> set (get_tags (run store3 [Delete_post 1 True, Delete_post 2 True]))
   \<and> tags_db (snd (create_post init_store 100 hello_body ''alice'')) = {''go''}
   \<and> posts_db (run store3 [Delete_post 1 True, Delete_post 2 True]) = []"
proof -
  have e: "posts_db (run store3 [Delete_post 1 True, Delete_post 2 True]) = []" by code_simp
  have a: "''go'' \<in> tags_db store3" by code_simp
  have "tags_db store3 = {''go'', ''rust''}" by code_simp
  then have f: "finite (tags_db store3)" by simp
  have g: "''go'' \<in> set (get_tags store3)" by code_simp
  have h: "title_must_not_be_empty (new_title hello_body) \<and> 3 \<le> length ''alice''" by code_simp
  have k: "tags_db init_store \<union> lower ` set (new_tags hello_body) = {''go''}" by code_simp
  note t = tag_registry_invariant [of store3 "Delete_post 1 True" "[Delete_post 1 True, Delete_post 2 True]"]
  from t a have "''go'' \<in> tags_db (run store3 [Delete_post 1 True, Delete_post 2 True])" by blast
  moreover from t f g have "''go'' \<in> set (get_tags (run store3 [Delete_post 1 True, Delete_post 2 True]))"
    by blast
  moreover
  from tag_registry_invariant [of init_store "Delete_post 1 True" "[]" hello_body "''alice''" 100] h k
  have "tags_db (snd (create_post init_store 100 hello_body ''alice'')) = {''go''}" by simp
  ultimately show ?thesis using e by blast
qed

subsection \<open>Statistics\<close>

lemma dict_get_keyed:
  "dict_get (map (\<lambda>t. (t, f t)) ks) t = (if t \<in> set ks then Some (f t) else None)"
  by (induction ks) auto

lemma dict_set_keyed_new:
  "t \<notin> set ks \<Longrightarrow> dict_set (map (\<lambda>x. (x, f x)) ks) t v = map (\<lambda>x. (x, f x)) ks @ [(t, v)]"
  by (induction ks) auto

lemma dict_set_keyed_old:
  "t \<in> set ks \<Longrightarrow> distinct ks \<Longrightarrow>
     dict_set (map (\<lambda>x. (x, f x)) ks) t v = map (\<lambda>x. (x, if x = t then v else f x)) ks"
proof (induction ks)
  case Nil
  then show ?case by simp
next
  case (Cons k ks)
  show ?case
  proof (cases "k = t")
    case True
    with Cons.prems have "t \<notin> set ks" by simp
    then have "map (\<lambda>x. (x, f x)) ks = map (\<lambda>x. (x, if x = t then v else f x)) ks"
      by (intro map_cong) auto
    with True show ?thesis by simp
  next
    case False
    with Cons show ?thesis by simp
  qed
qed

lemma first_seen_snoc:
  "first_seen (xs @ [x]) = (if x \<in> set xs then first_seen xs else first_seen xs @ [x])"
  by (simp add: first_seen_def)

lemma set_first_seen: "set (first_seen xs) = set xs"
  by (simp add: first_seen_def)

lemma distinct_first_seen: "distinct (first_seen xs)"
  by (simp add: first_seen_def)

lemma count_tag_step:
  "count_tag (map (\<lambda>t. (t, int (count_list ts t))) (first_seen ts)) u
     = map (\<lambda>t. (t, int (count_list (ts @ [u]) t))) (first_seen (ts @ [u]))"
proof (cases "u \<in> set ts")
  case True
  then have u: "u \<in> set (first_seen ts)" by (simp add: set_first_seen)
  have "count_tag (map (\<lambda>t. (t, int (count_list ts t))) (first_seen ts)) u
      = map (\<lambda>x. (x, if x = u then int (count_list ts u) + 1 else int (count_list ts x)))
          (first_seen ts)"
    using u by (simp add: count_tag_def dict_get_keyed dict_set_keyed_old distinct_first_seen)
  also have "\<dots> = map (\<lambda>t. (t, int (count_list (ts @ [u]) t))) (first_seen ts)"
    by (intro map_cong) auto
  finally show ?thesis using True by (simp add: first_seen_snoc)
next
  case False
  then have u: "u \<notin> set (first_seen ts)" by (simp add: set_first_seen)
  from False have zero: "count_list ts u = 0" by (simp add: count_list_0_iff)
  let ?g = "\<lambda>t. (t, int (count_list (ts @ [u]) t))"
  have a: "count_tag (map (\<lambda>t. (t, int (count_list ts t))) (first_seen ts)) u
      = map (\<lambda>t. (t, int (count_list ts t))) (first_seen ts) @ [(u, 1)]"
    using u by (simp add: count_tag_def dict_get_keyed dict_set_keyed_new)
  have b: "map (\<lambda>t. (t, int (count_list ts t))) (first_seen ts) = map ?g (first_seen ts)"
    using u by (intro map_cong) auto
  have c: "map ?g (first_seen (ts @ [u])) = map ?g (first_seen ts) @ [(u, 1)]"
    using False zero by (simp add: first_seen_snoc)
  show ?thesis by (simp only: a c) (simp only: b)
qed

lemma foldl_count_tag:
  "foldl count_tag (map (\<lambda>t. (t, int (count_list ts t))) (first_seen ts)) us
     = map (\<lambda>t. (t, int (count_list (ts @ us) t))) (first_seen (ts @ us))"
proof (induction us arbitrary: ts)
  case Nil
  show ?case by simp
next
  case (Cons u us)
  have "foldl count_tag (map (\<lambda>t. (t, int (count_list ts t))) (first_seen ts)) (u # us)
      = foldl count_tag (map (\<lambda>t. (t, int (count_list (ts @ [u]) t))) (first_seen (ts @ [u]))) us"
    by (simp only: foldl_Cons count_tag_step)
  also have "\<dots> = map (\<lambda>t. (t, int (count_list ((ts @ [u]) @ us) t))) (first_seen ((ts @ [u]) @ us))"
    by (rule Cons.IH)
  finally show ?case by simp
qed

lemma foldl_tags_concat:
  "foldl (\<lambda>tc p. foldl count_tag tc (tags p)) tc ps = foldl count_tag tc (concat (map tags ps))"
  by (induction ps arbitrary: tc) simp_all

lemma tag_counts_of_eq:
  "tag_counts_of ps =
     map (\<lambda>t. (t, int (count_list (concat (map tags ps)) t))) (first_seen (concat (map tags ps)))"
proof -
  have "tag_counts_of ps = foldl count_tag [] (concat (map tags ps))"
    by (simp add: tag_counts_of_def foldl_tags_concat)
  also have "[] = map (\<lambda>t. (t, int (count_list [] t))) (first_seen ([] :: string list))"
    by (simp add: first_seen_def)
  finally show ?thesis by (simp only: foldl_count_tag append_Nil)
qed

lemma sorted_take_drop:
  "sorted (map f xs) \<Longrightarrow> x \<in> set (take n xs) \<Longrightarrow> y \<in> set (drop n xs) \<Longrightarrow> f x \<le> f y"
proof -
  assume srt: "sorted (map f xs)" and x: "x \<in> set (take n xs)" and y: "y \<in> set (drop n xs)"
  have "map f xs = map f (take n xs) @ map f (drop n xs)"
    by (simp flip: map_append)
  with srt have "sorted (map f (take n xs) @ map f (drop n xs))" by simp
  with x y show "f x \<le> f y" by (auto simp: sorted_append)
qed

text \<open>
  C7. In the record \<open>get_stats\<close> returns, \<open>published_posts\<close> and \<open>draft_posts\<close> split the
  posts by the published flag and add up to \<open>total_posts\<close>; \<open>total_views\<close> is the sum of
  the view counters; \<open>total_comments\<close> is the number of comments. \<open>popular_tags\<close> has at
  most five entries, each a tag that occurs on some post with the number of its occurrences
  on posts (the registry plays no part), no tag twice, in descending order of frequency, and
  no tag left out occurs more often than one listed. Tags of equal frequency keep the order
  in which they first appear on the posts.
\<close>

theorem get_stats_correct:
  fixes s :: store
  defines "ps \<equiv> dict_values (posts_db s)"
  defines "all_tags \<equiv> concat (map tags ps)"
  defines "st \<equiv> get_stats s"
  shows "published_posts st + draft_posts st = total_posts st
   \<and> total_posts st = int (length ps)
   \<and> published_posts st = int (length (filter (\<lambda>p. published p = Some True) ps))
   \<and> draft_posts st = int (length (filter (\<lambda>p. published p \<noteq> Some True) ps))
   \<and> total_views st = sum_list (map views ps)
   \<and> total_comments st = int (length (comments_db s))
   \<and> length (popular_tags st) \<le> 5
   \<and> popular_tags st =
       take 5 (sort_key (\<lambda>tc. - snd tc)
         (map (\<lambda>t. (t, int (count_list all_tags t))) (first_seen all_tags)))
   \<and> (\<forall>tc\<in>set (popular_tags st).
         fst tc \<in> set all_tags \<and> snd tc = int (count_list all_tags (fst tc)) \<and> 1 \<le> snd tc)
   \<and> distinct (map fst (popular_tags st))
   \<and> sorted_wrt (\<lambda>a b. snd b \<le> snd a) (popular_tags st)
   \<and> (\<forall>t\<in>set all_tags. t \<notin> fst ` set (popular_tags st) \<longrightarrow>
         length (popular_tags st) = 5
         \<and> (\<forall>tc\<in>set (popular_tags st). int (count_list all_tags t) \<le> snd tc))
   \<and> (\<forall>c. prefix (map fst (filter (\<lambda>tc. snd tc = c) (popular_tags st)))
              (filter (\<lambda>t. int (count_list all_tags t) = c) (first_seen all_tags)))"
proof -
  let ?M = "map (\<lambda>t. (t, int (count_list all_tags t))) (first_seen all_tags)"
  let ?f = "\<lambda>tc :: string \<times> int. - snd tc"
  let ?S = "sort_key ?f ?M"
  have pop: "popular_tags st = take 5 ?S"
    by (simp add: st_def get_stats_def Let_def tag_counts_of_eq all_tags_def ps_def)
  have part: "published_posts st + draft_posts st = total_posts st"
    using sum_length_filter_compl [of "\<lambda>p. published p = Some True" ps]
    by (simp add: st_def get_stats_def Let_def ps_def)
  have basics: "total_posts st = int (length ps)"
    "published_posts st = int (length (filter (\<lambda>p. published p = Some True) ps))"
    "draft_posts st = int (length (filter (\<lambda>p. published p \<noteq> Some True) ps))"
    "total_views st = sum_list (map views ps)"
    "total_comments st = int (length (comments_db s))"
    by (simp_all add: st_def get_stats_def Let_def ps_def)
  have len: "length (popular_tags st) \<le> 5" by (simp add: pop)
  have setS: "set ?S = set ?M" by simp
  have entries: "fst tc \<in> set all_tags \<and> snd tc = int (count_list all_tags (fst tc)) \<and> 1 \<le> snd tc"
    if "tc \<in> set (popular_tags st)" for tc
  proof -
    from that have "tc \<in> set ?S" unfolding pop by (rule in_set_takeD)
    then have "tc \<in> set ?M" by simp
    then obtain t where t: "t \<in> set all_tags" and tc: "tc = (t, int (count_list all_tags t))"
      by (auto simp: set_first_seen)
    from t have "count_list all_tags t \<noteq> 0" by (simp add: count_list_0_iff)
    with t tc show ?thesis by simp
  qed
  have "map fst ?M = first_seen all_tags" by (simp add: comp_def)
  then have dM: "distinct (map fst ?M)" by (simp add: distinct_first_seen)
  have eq: "mset (map fst ?S) = mset (map fst ?M)" by (simp only: mset_map mset_sort)
  from mset_eq_imp_distinct_iff [OF eq] dM have dS: "distinct (map fst ?S)" by blast
  have dist: "distinct (map fst (popular_tags st))"
    using dS by (simp add: pop take_map [symmetric] del: take_map)
  have srtS: "sorted (map ?f ?S)" by (rule sorted_sort_key)
  then have "sorted (map ?f (take 5 ?S))"
    by (simp add: take_map [symmetric] sorted_wrt_take del: take_map)
  then have srt: "sorted_wrt (\<lambda>a b. snd b \<le> snd a) (popular_tags st)"
    by (simp add: pop sorted_map)
  have top: "length (popular_tags st) = 5
         \<and> (\<forall>tc\<in>set (popular_tags st). int (count_list all_tags t) \<le> snd tc)"
    if t: "t \<in> set all_tags" and out: "t \<notin> fst ` set (popular_tags st)" for t
  proof -
    let ?e = "(t, int (count_list all_tags t))"
    from t have inS: "?e \<in> set ?S" by (simp add: set_first_seen)
    have split: "set ?S = set (take 5 ?S) \<union> set (drop 5 ?S)"
      by (simp only: set_append [symmetric] append_take_drop_id)
    from out have "?e \<notin> set (take 5 ?S)" unfolding pop by force
    with inS split have dr: "?e \<in> set (drop 5 ?S)" by blast
    then have "drop 5 ?S \<noteq> []" by auto
    then have l: "length (popular_tags st) = 5" by (simp add: pop)
    have "int (count_list all_tags t) \<le> snd tc" if "tc \<in> set (popular_tags st)" for tc
      using sorted_take_drop [OF srtS, of tc 5 ?e] that dr by (simp add: pop)
    with l show ?thesis by blast
  qed
  have tie: "prefix (map fst (filter (\<lambda>tc. snd tc = c) (popular_tags st)))
              (filter (\<lambda>t. int (count_list all_tags t) = c) (first_seen all_tags))" for c
  proof -
    have "prefix (filter (\<lambda>tc. ?f tc = - c) (take 5 ?S)) (filter (\<lambda>tc. ?f tc = - c) ?S)"
      by (intro filter_mono_prefix take_is_prefix)
    also have "filter (\<lambda>tc. ?f tc = - c) ?S = filter (\<lambda>tc. ?f tc = - c) ?M"
      by (rule sort_key_stable)
    finally have "prefix (filter (\<lambda>tc. snd tc = c) (popular_tags st)) (filter (\<lambda>tc. snd tc = c) ?M)"
      by (simp add: pop)
    then have "prefix (map fst (filter (\<lambda>tc. snd tc = c) (popular_tags st)))
        (map fst (filter (\<lambda>tc. snd tc = c) ?M))"
      by (rule map_mono_prefix)
    also have "map fst (filter (\<lambda>tc. snd tc = c) ?M)
        = filter (\<lambda>t. int (count_list all_tags t) = c) (first_seen all_tags)"
      by (simp add: filter_map comp_def)
    finally show ?thesis .
  qed
  have entries': "\<forall>tc\<in>set (popular_tags st).
         fst tc \<in> set all_tags \<and> snd tc = int (count_list all_tags (fst tc)) \<and> 1 \<le> snd tc"
    using entries by blast
  have top': "\<forall>t\<in>set all_tags. t \<notin> fst ` set (popular_tags st) \<longrightarrow>
         length (popular_tags st) = 5
         \<and> (\<forall>tc\<in>set (popular_tags st). int (count_list all_tags t) \<le> snd tc)"
    using top by blast
  have tie': "\<forall>c. prefix (map fst (filter (\<lambda>tc. snd tc = c) (popular_tags st)))
              (filter (\<lambda>t. int (count_list all_tags t) = c) (first_seen all_tags))"
    using tie by blast
  show ?thesis
    by (intro conjI) (fact part basics len pop entries' dist srt top' tie')+
qed

theorem get_stats_correct_witness:
  "popular_tags (get_stats stats_store)
     = [(''c'', 3), (''b'', 2), (''a'', 1), (''d'', 1), (''e'', 1)]
   \<and> published_posts (get_stats stats_store) + draft_posts (get_stats stats_store)
       = total_posts (get_stats stats_store)
   \<and> total_views (get_stats stats_store) = 3"
proof -
  have tg: "concat (map tags (dict_values (posts_db stats_store)))
      = [''a'', ''b'', ''c'', ''b'', ''c'', ''d'', ''c'', ''e'', ''f'', ''g'']" by code_simp
  have vw: "sum_list (map views (dict_values (posts_db stats_store))) = 3" by code_simp
  have top5: "take 5 (sort_key (\<lambda>tc. - snd tc)
         (map (\<lambda>t. (t, int (count_list
             [''a'', ''b'', ''c'', ''b'', ''c'', ''d'', ''c'', ''e'', ''f'', ''g''] t)))
           (first_seen [''a'', ''b'', ''c'', ''b'', ''c'', ''d'', ''c'', ''e'', ''f'', ''g''])))
      = [(''c'', 3), (''b'', 2), (''a'', 1), (''d'', 1), (''e'', 1)]" by code_simp
  note t = get_stats_correct [of stats_store]
  from t have "popular_tags (get_stats stats_store) =
       take 5 (sort_key (\<lambda>tc. - snd tc)
         (map (\<lambda>t. (t, int (count_list (concat (map tags (dict_values (posts_db stats_store)))) t)))
           (first_seen (concat (map tags (dict_values (posts_db stats_store)))))))"
    by blast
  then have a: "popular_tags (get_stats stats_store)
     = [(''c'', 3), (''b'', 2), (''a'', 1), (''d'', 1), (''e'', 1)]"
    by (simp only: tg top5)
  from t have b: "published_posts (get_stats stats_store) + draft_posts (get_stats stats_store)
       = total_posts (get_stats stats_store)" by blast
  from t have "total_views (get_stats stats_store)
      = sum_list (map views (dict_values (posts_db stats_store)))" by blast
  then have c: "total_views (get_stats stats_store) = 3" by (simp only: vw)
  from a b c show ?thesis by (intro conjI)
qed

end
